theory Spec2Isabelle
  imports Complex_Main
begin

section \<open>Data model of \<open>streaming_system.py\<close>\<close>

text \<open>
  \<^verbatim>\<open>StreamMessage\<close> is a (non-frozen) dataclass with the fields topic, key, value,
  timestamp and partition (default 0). The field \<^verbatim>\<open>value\<close> is called \<open>msg_value\<close> and
  the field \<^verbatim>\<open>partition\<close> is called \<open>partition_idx\<close> here, since the source's names
  are taken in HOL. The payload is an opaque dictionary, hence a type parameter; the
  timestamp is the reading of the clock at construction.
\<close>

record 'v StreamMessage =
  topic :: string
  key :: string
  msg_value :: 'v
  timestamp :: nat
  partition_idx :: int

text \<open>
  An entry of \<^verbatim>\<open>StreamBroker.topics\<close>: the dictionary
  \<^verbatim>\<open>{'partitions': partitions, 'messages': [[] for _ in range(partitions)]}\<close>.
\<close>

record 'v topic_data =
  partitions :: int
  messages :: "'v StreamMessage list list"

text \<open>
  The broker. \<^verbatim>\<open>consumers\<close> maps a topic to the list of registered consumer objects;
  an object is represented by its identity (a number). \<^verbatim>\<open>lock\<close> is a
  \<^verbatim>\<open>threading.Lock()\<close>, which is not reentrant: the field says whether it is held.
  The attribute \<^verbatim>\<open>message_queues\<close> is never read or written after construction and
  is left out.
\<close>

record 'v StreamBroker =
  topics :: "string \<rightharpoonup> 'v topic_data"
  consumers :: "string \<rightharpoonup> nat list"
  lock :: bool

datatype py_error = ZeroDivisionError | IndexError | KeyError | TypeError

text \<open>The state after \<^verbatim>\<open>StreamBroker.__init__\<close>.\<close>

definition new_broker :: "'v StreamBroker" where
  "new_broker = \<lparr>topics = Map.empty, consumers = Map.empty, lock = False\<rparr>"

subsection \<open>Python primitives used by the broker\<close>

text \<open>\<^verbatim>\<open>a % b\<close> on integers: raises on a zero divisor, else the sign follows the divisor.\<close>

definition py_mod :: "int \<Rightarrow> int \<Rightarrow> py_error + int" where
  "py_mod a b = (if b = 0 then Inl ZeroDivisionError else Inr (a mod b))"

text \<open>\<^verbatim>\<open>xs[i]\<close>: a negative index counts from the end; out of range raises.\<close>

definition list_index :: "'a list \<Rightarrow> int \<Rightarrow> py_error + nat" where
  "list_index xs i =
     (if 0 \<le> i \<and> i < int (length xs) then Inr (nat i)
      else if i < 0 \<and> - int (length xs) \<le> i then Inr (nat (int (length xs) + i))
      else Inl IndexError)"

text \<open>\<^verbatim>\<open>xs[:n]\<close>: a negative bound leaves out the last \<open>-n\<close> elements.\<close>

definition slice_to :: "'a list \<Rightarrow> int \<Rightarrow> 'a list" where
  "slice_to xs n = (if n < 0 then take (length xs - nat (- n)) xs else take (nat n) xs)"

text \<open>
  \<^verbatim>\<open>with self.lock: body\<close>. Acquiring a lock that is held blocks; in a sequential run
  nobody releases it, so the call never returns: the result \<open>None\<close>. Otherwise the
  body runs with the lock held and the lock is released on the way out, also when the
  body raises (the body's result carries its own error value).
\<close>

definition with_lock ::
  "('v StreamBroker \<Rightarrow> ('a \<times> 'v StreamBroker) option) \<Rightarrow> 'v StreamBroker
     \<Rightarrow> ('a \<times> 'v StreamBroker) option" where
  "with_lock body b =
     (if lock b then None
      else (case body (b\<lparr>lock := True\<rparr>) of
              None \<Rightarrow> None
            | Some (r, b') \<Rightarrow> Some (r, b'\<lparr>lock := False\<rparr>)))"

section \<open>StreamBroker\<close>

subsection \<open>create_topic\<close>

definition create_topic_body :: "string \<Rightarrow> int \<Rightarrow> 'v StreamBroker \<Rightarrow> 'v StreamBroker" where
  "create_topic_body t n b =
     (if topics b t = None
      then b\<lparr>topics := (topics b)(t \<mapsto> \<lparr>partitions = n, messages = replicate (nat n) []\<rparr>),
             consumers := (consumers b)(t \<mapsto> [])\<rparr>
      else b)"

definition create_topic :: "string \<Rightarrow> int \<Rightarrow> 'v StreamBroker \<Rightarrow> 'v StreamBroker option" where
  "create_topic t n b =
     map_option snd (with_lock (\<lambda>b1. Some ((), create_topic_body t n b1)) b)"

subsection \<open>publish\<close>

text \<open>
  The body of \<^verbatim>\<open>publish\<close> inside \<^verbatim>\<open>with self.lock\<close>. The builtin \<^verbatim>\<open>hash\<close> on strings is
  not part of the repository and is a parameter. The result is \<open>None\<close> when the body
  never returns; otherwise the exception raised, if any, the message object as the
  body leaves it (\<^verbatim>\<open>message.partition = partition\<close> mutates the caller's object), and
  the broker. For an unknown topic the body calls \<^verbatim>\<open>self.create_topic\<close>, which
  acquires \<^verbatim>\<open>self.lock\<close> again.
\<close>

definition publish_body ::
  "(string \<Rightarrow> int) \<Rightarrow> 'v StreamMessage \<Rightarrow> 'v StreamBroker
     \<Rightarrow> ((py_error + unit) \<times> 'v StreamMessage \<times> 'v StreamBroker) option" where
  "publish_body hash message b =
     (case (if topics b (topic message) = None then create_topic (topic message) 1 b
            else Some b) of
        None \<Rightarrow> None
      | Some b1 \<Rightarrow>
          (case topics b1 (topic message) of
             None \<Rightarrow> Some (Inl KeyError, message, b1)
           | Some td \<Rightarrow>
               (case py_mod (hash (key message)) (partitions td) of
                  Inl e \<Rightarrow> Some (Inl e, message, b1)
                | Inr p \<Rightarrow>
                    (let message' = message\<lparr>partition_idx := p\<rparr> in
                     case list_index (messages td) p of
                       Inl e \<Rightarrow> Some (Inl e, message', b1)
                     | Inr i \<Rightarrow>
                         Some (Inr (), message',
                           b1\<lparr>topics := (topics b1)(topic message \<mapsto>
                                 td\<lparr>messages :=
                                      (messages td)[i := messages td ! i @ [message']]\<rparr>)\<rparr>)))))"

text \<open>
  \<^verbatim>\<open>publish\<close>: \<^verbatim>\<open>try: with self.lock: ... return True except Exception: return False\<close>.
  The result is the returned boolean, the caller's message object and the broker.
\<close>

definition publish ::
  "(string \<Rightarrow> int) \<Rightarrow> 'v StreamMessage \<Rightarrow> 'v StreamBroker
     \<Rightarrow> (bool \<times> 'v StreamMessage \<times> 'v StreamBroker) option" where
  "publish hash message b =
     (case with_lock (\<lambda>b1. case publish_body hash message b1 of
                              None \<Rightarrow> None
                            | Some (r, m', b2) \<Rightarrow> Some ((r, m'), b2)) b of
        None \<Rightarrow> None
      | Some ((r, m'), b') \<Rightarrow> Some (case r of Inl e \<Rightarrow> False | Inr u \<Rightarrow> True, m', b'))"

subsection \<open>consume\<close>

text \<open>
  The loop over \<^verbatim>\<open>self.topics[topic]['messages']\<close>: \<open>acc\<close> is the list \<^verbatim>\<open>messages\<close>
  that the loop extends; the second component are the partition logs after the
  \<^verbatim>\<open>del partition_messages[:len(consumed)]\<close>.
\<close>

fun consume_loop ::
  "int \<Rightarrow> 'v StreamMessage list list \<Rightarrow> 'v StreamMessage list
     \<Rightarrow> 'v StreamMessage list \<times> 'v StreamMessage list list" where
  "consume_loop max_messages [] acc = (acc, [])"
| "consume_loop max_messages (partition_messages # rest) acc =
     (if partition_messages \<noteq> []
      then (let consumed = slice_to partition_messages max_messages;
                (out, rest') = consume_loop max_messages rest (acc @ consumed)
            in (out, drop (length consumed) partition_messages # rest'))
      else (let (out, rest') = consume_loop max_messages rest acc
            in (out, partition_messages # rest')))"

definition consume_body ::
  "string \<Rightarrow> int \<Rightarrow> 'v StreamBroker \<Rightarrow> 'v StreamMessage list \<times> 'v StreamBroker" where
  "consume_body t max_messages b =
     (case topics b t of
        None \<Rightarrow> ([], b)
      | Some td \<Rightarrow>
          (let (out, logs') = consume_loop max_messages (messages td) []
           in (out, b\<lparr>topics := (topics b)(t \<mapsto> td\<lparr>messages := logs'\<rparr>)\<rparr>)))"

text \<open>\<^verbatim>\<open>consume(topic, group_id, max_messages)\<close>; the group id is not used by the body.\<close>

definition consume ::
  "string \<Rightarrow> string \<Rightarrow> int \<Rightarrow> 'v StreamBroker
     \<Rightarrow> ('v StreamMessage list \<times> 'v StreamBroker) option" where
  "consume t group_id max_messages b =
     with_lock (\<lambda>b1. Some (consume_body t max_messages b1)) b"

subsection \<open>add_consumer\<close>

text \<open>\<^verbatim>\<open>add_consumer\<close> does not take the lock.\<close>

definition add_consumer :: "string \<Rightarrow> nat \<Rightarrow> 'v StreamBroker \<Rightarrow> 'v StreamBroker" where
  "add_consumer t c b =
     (let b1 = (if consumers b t = None then b\<lparr>consumers := (consumers b)(t \<mapsto> [])\<rparr> else b)
      in case consumers b1 t of
           None \<Rightarrow> b1
         | Some cs \<Rightarrow> b1\<lparr>consumers := (consumers b1)(t \<mapsto> cs @ [c])\<rparr>)"

section \<open>StreamProducer\<close>

text \<open>
  \<^verbatim>\<open>send\<close> builds the message with the clock reading \<open>now\<close> and the default
  partition 0 and returns what \<^verbatim>\<open>publish\<close> returns; \<^verbatim>\<open>publish\<close> raises nothing, so
  the \<^verbatim>\<open>except\<close> branch of \<^verbatim>\<open>send\<close> is never taken.
\<close>

definition send ::
  "(string \<Rightarrow> int) \<Rightarrow> nat \<Rightarrow> string \<Rightarrow> string \<Rightarrow> 'v \<Rightarrow> 'v StreamBroker
     \<Rightarrow> (bool \<times> 'v StreamBroker) option" where
  "send hash now t k v b =
     (case publish hash
             \<lparr>topic = t, key = k, msg_value = v, timestamp = now, partition_idx = 0\<rparr> b of
        None \<Rightarrow> None
      | Some (r, m', b') \<Rightarrow> Some (r, b'))"

section \<open>StreamConsumer\<close>

text \<open>
  A message handler is any callable: it may change the broker and state of its own
  (\<open>'h\<close>), it may raise, and it may never return (\<open>None\<close>). When it raises, the
  effects it had so far stay.
\<close>

datatype completion = Returned | Raised

type_synonym ('v, 'h) handler =
  "'v StreamMessage \<Rightarrow> 'v StreamBroker \<times> 'h \<Rightarrow> (completion \<times> 'v StreamBroker \<times> 'h) option"

record ('v, 'h) StreamConsumer =
  consumer_id :: nat
  group_id :: string
  subscribed_topics :: "string set"
  running :: bool
  message_handler :: "('v, 'h) handler option"

text \<open>The loop \<^verbatim>\<open>for topic in topics: self.broker.add_consumer(topic, self)\<close>.\<close>

fun register_all :: "string list \<Rightarrow> nat \<Rightarrow> 'v StreamBroker \<Rightarrow> 'v StreamBroker" where
  "register_all [] c b = b"
| "register_all (t # ts) c b = register_all ts c (add_consumer t c b)"

definition subscribe ::
  "string list \<Rightarrow> ('v, 'h) StreamConsumer \<Rightarrow> 'v StreamBroker
     \<Rightarrow> ('v, 'h) StreamConsumer \<times> 'v StreamBroker" where
  "subscribe ts c b =
     (c\<lparr>subscribed_topics := subscribed_topics c \<union> set ts\<rparr>, register_all ts (consumer_id c) b)"

definition set_message_handler ::
  "('v, 'h) handler \<Rightarrow> ('v, 'h) StreamConsumer \<Rightarrow> ('v, 'h) StreamConsumer" where
  "set_message_handler h c = c\<lparr>message_handler := Some h\<rparr>"

definition stop_consuming :: "('v, 'h) StreamConsumer \<Rightarrow> ('v, 'h) StreamConsumer" where
  "stop_consuming c = c\<lparr>running := False\<rparr>"

text \<open>
  The inner loop \<^verbatim>\<open>for message in messages: if self.message_handler:
  self.message_handler(message)\<close>. An exception leaves the loop.
\<close>

fun deliver ::
  "('v, 'h) handler option \<Rightarrow> 'v StreamMessage list \<Rightarrow> 'v StreamBroker \<times> 'h
     \<Rightarrow> (completion \<times> 'v StreamBroker \<times> 'h) option" where
  "deliver mh [] s = Some (Returned, s)"
| "deliver mh (m # ms) s =
     (case mh of
        None \<Rightarrow> deliver mh ms s
      | Some h \<Rightarrow>
          (case h m s of
             None \<Rightarrow> None
           | Some (Raised, s') \<Rightarrow> Some (Raised, s')
           | Some (Returned, s') \<Rightarrow> deliver mh ms s'))"

text \<open>
  The outer loop \<^verbatim>\<open>for topic in self.subscribed_topics\<close>, over the topics in the order
  in which the set yields them; \<^verbatim>\<open>consume\<close> is called with the default
  \<^verbatim>\<open>max_messages = 10\<close>.
\<close>

fun poll_topics ::
  "('v, 'h) StreamConsumer \<Rightarrow> string list \<Rightarrow> 'v StreamBroker \<times> 'h
     \<Rightarrow> (completion \<times> 'v StreamBroker \<times> 'h) option" where
  "poll_topics c [] s = Some (Returned, s)"
| "poll_topics c (t # ts) s =
     (case consume t (group_id c) 10 (fst s) of
        None \<Rightarrow> None
      | Some (msgs, b') \<Rightarrow>
          (case deliver (message_handler c) msgs (b', snd s) of
             None \<Rightarrow> None
           | Some (Raised, s') \<Rightarrow> Some (Raised, s')
           | Some (Returned, s') \<Rightarrow> poll_topics c ts s'))"

text \<open>
  One iteration of the \<^verbatim>\<open>while self.running\<close> loop: the \<^verbatim>\<open>try\<close> block around the
  sweep, whose \<^verbatim>\<open>except Exception\<close> logs the fault and falls through to the next
  iteration. The iteration order of a Python set is not specified: \<open>iter\<close> gives
  it.
\<close>

definition sweep ::
  "(string set \<Rightarrow> string list) \<Rightarrow> ('v, 'h) StreamConsumer \<Rightarrow> 'v StreamBroker \<times> 'h
     \<Rightarrow> ('v StreamBroker \<times> 'h) option" where
  "sweep iter c s =
     (case poll_topics c (iter (subscribed_topics c)) s of
        None \<Rightarrow> None
      | Some (r, s') \<Rightarrow> Some s')"

text \<open>
  The first \<open>n\<close> iterations of the \<^verbatim>\<open>while self.running\<close> loop. The flag is only
  written by \<^verbatim>\<open>stop_consuming\<close>, from outside the loop.
\<close>

fun consuming_loop ::
  "nat \<Rightarrow> (string set \<Rightarrow> string list) \<Rightarrow> ('v, 'h) StreamConsumer \<Rightarrow> 'v StreamBroker \<times> 'h
     \<Rightarrow> ('v StreamBroker \<times> 'h) option" where
  "consuming_loop 0 iter c s = Some s"
| "consuming_loop (Suc n) iter c s =
     (if running c
      then (case sweep iter c s of
              None \<Rightarrow> None
            | Some s' \<Rightarrow> consuming_loop n iter c s')
      else Some s)"

definition start_consuming ::
  "nat \<Rightarrow> (string set \<Rightarrow> string list) \<Rightarrow> ('v, 'h) StreamConsumer \<Rightarrow> 'v StreamBroker \<times> 'h
     \<Rightarrow> ('v StreamBroker \<times> 'h) option" where
  "start_consuming n iter c s = consuming_loop n iter (c\<lparr>running := True\<rparr>) s"

section \<open>StreamProcessor\<close>

text \<open>
  The closure \<^verbatim>\<open>message_handler\<close> of \<^verbatim>\<open>add_processor\<close>: the whole body is inside
  \<^verbatim>\<open>try ... except Exception\<close>, so that a fault of \<^verbatim>\<open>transform_func\<close> is logged and
  the handler returns. The result of \<^verbatim>\<open>producer.send\<close> is dropped.
\<close>

definition processor_handler ::
  "(string \<Rightarrow> int) \<Rightarrow> nat \<Rightarrow> string \<Rightarrow> ('v \<Rightarrow> py_error + 'v) \<Rightarrow> ('v, 'h) handler" where
  "processor_handler hash now output_topic transform_func message s =
     (case transform_func (msg_value message) of
        Inl e \<Rightarrow> Some (Returned, s)
      | Inr transformed_data \<Rightarrow>
          (case send hash now output_topic (key message) transformed_data (fst s) of
             None \<Rightarrow> None
           | Some (r, b') \<Rightarrow> Some (Returned, b', snd s)))"

text \<open>
  \<^verbatim>\<open>add_processor\<close> up to the start of the thread: the new consumer (of identity
  \<open>cid\<close>) with its handler, subscribed to the input topic. The thread then runs
  \<^verbatim>\<open>start_consuming\<close> on it.
\<close>

definition add_processor ::
  "(string \<Rightarrow> int) \<Rightarrow> nat \<Rightarrow> nat \<Rightarrow> string \<Rightarrow> string \<Rightarrow> string \<Rightarrow> ('v \<Rightarrow> py_error + 'v)
     \<Rightarrow> 'v StreamBroker \<Rightarrow> ('v, 'h) StreamConsumer \<times> 'v StreamBroker" where
  "add_processor hash now cid name input_topic output_topic transform_func b =
     subscribe [input_topic]
       (set_message_handler (processor_handler hash now output_topic transform_func)
          \<lparr>consumer_id = cid, group_id = ''processor_'' @ name, subscribed_topics = {},
           running = False, message_handler = None\<rparr>) b"

section \<open>Call sequences and the invariant of the topic store\<close>

text \<open>
  A caller that publishes the messages of a list one after the other, and a caller that
  calls \<^verbatim>\<open>consume\<close> \<open>k\<close> times in a row with the same arguments: the returned values
  in call order, and the broker after the last call.
\<close>

fun publish_all ::
  "(string \<Rightarrow> int) \<Rightarrow> 'v StreamMessage list \<Rightarrow> 'v StreamBroker
     \<Rightarrow> (bool list \<times> 'v StreamBroker) option" where
  "publish_all hash [] b = Some ([], b)"
| "publish_all hash (m # ms) b =
     (case publish hash m b of
        None \<Rightarrow> None
      | Some (r, m', b1) \<Rightarrow>
          (case publish_all hash ms b1 of
             None \<Rightarrow> None
           | Some (rs, b2) \<Rightarrow> Some (r # rs, b2)))"

fun consume_times ::
  "nat \<Rightarrow> string \<Rightarrow> string \<Rightarrow> int \<Rightarrow> 'v StreamBroker
     \<Rightarrow> ('v StreamMessage list list \<times> 'v StreamBroker) option" where
  "consume_times 0 t gid max_messages b = Some ([], b)"
| "consume_times (Suc k) t gid max_messages b =
     (case consume t gid max_messages b of
        None \<Rightarrow> None
      | Some (msgs, b1) \<Rightarrow>
          (case consume_times k t gid max_messages b1 of
             None \<Rightarrow> None
           | Some (batches, b2) \<Rightarrow> Some (msgs # batches, b2)))"

text \<open>
  What \<^verbatim>\<open>create_topic\<close> establishes and \<^verbatim>\<open>publish\<close> and \<^verbatim>\<open>consume\<close> keep for the entry
  of topic \<open>t\<close>: there are as many logs as \<^verbatim>\<open>range(partitions)\<close> has elements, and
  the records in log \<open>i\<close> carry the topic \<open>t\<close> and the partition \<open>i\<close>.
\<close>

definition wf_topic :: "string \<Rightarrow> 'v topic_data \<Rightarrow> bool" where
  "wf_topic t td \<longleftrightarrow>
     length (messages td) = nat (partitions td) \<and>
     (\<forall>i < length (messages td). \<forall>m \<in> set (messages td ! i).
        topic m = t \<and> partition_idx m = int i)"

definition wf_broker :: "'v StreamBroker \<Rightarrow> bool" where
  "wf_broker b \<longleftrightarrow> \<not> lock b \<and> (\<forall>t td. topics b t = Some td \<longrightarrow> wf_topic t td)"

section \<open>The transformation of \<^verbatim>\<open>main\<close> and sample callers\<close>

text \<open>
  Payloads are dictionaries from strings to dynamically typed values; numbers and
  strings are the values that the generators of the repository produce.
\<close>

datatype pyval = Num real | Str string

text \<open>
  \<^verbatim>\<open>aggregate_events\<close>, the transformation that \<^verbatim>\<open>main\<close> registers:
  \<^verbatim>\<open>{**data, 'processed_at': datetime.now().isoformat(),
    'event_score': data.get('value', 0) * 1.5}\<close>. The clock reading is the parameter
  \<open>now_iso\<close>. Multiplying a string by a float raises \<^verbatim>\<open>TypeError\<close>.
\<close>

definition aggregate_events :: "string \<Rightarrow> (string \<rightharpoonup> pyval) \<Rightarrow> py_error + (string \<rightharpoonup> pyval)" where
  "aggregate_events now_iso data =
     (case (case data ''value'' of None \<Rightarrow> Num 0 | Some v \<Rightarrow> v) of
        Num v \<Rightarrow> Inr (data(''processed_at'' \<mapsto> Str now_iso, ''event_score'' \<mapsto> Num (v * 1.5)))
      | Str s \<Rightarrow> Inl TypeError)"

text \<open>
  An iteration order for sets of topics: the members of the set in the order of a
  reference list.
\<close>

definition topics_in_order :: "string list \<Rightarrow> string set \<Rightarrow> string list" where
  "topics_in_order ts S = filter (\<lambda>t. t \<in> S) ts"

text \<open>
  A handler as a client may install it with \<^verbatim>\<open>set_message_handler\<close>: it raises on a
  record with the key \<^verbatim>\<open>bad\<close> and otherwise appends the key of the record to a list
  of its own.
\<close>

definition recording_handler :: "('v, string list) handler" where
  "recording_handler m s =
     (if key m = ''bad'' then Some (Raised, s) else Some (Returned, fst s, snd s @ [key m]))"

section \<open>Basic facts: the lock and the Python primitives\<close>

lemma unlock_id: "\<not> lock b \<Longrightarrow> b\<lparr>lock := False\<rparr> = b"
  by (cases b) simp

lemma with_lock_held: "lock b \<Longrightarrow> with_lock body b = None"
  by (simp add: with_lock_def)

lemma create_topic_held: "lock b \<Longrightarrow> create_topic t n b = None"
  by (simp add: create_topic_def with_lock_held)

lemma create_topic_free: "\<not> lock b \<Longrightarrow> create_topic t n b = Some (create_topic_body t n b)"
  by (cases b) (simp add: create_topic_def with_lock_def create_topic_body_def)

lemma create_topic_Some_lock: "create_topic t n b = Some b1 \<Longrightarrow> \<not> lock b \<and> \<not> lock b1"
  by (cases "lock b")
     (auto simp: create_topic_held create_topic_free create_topic_body_def split: if_splits)

lemma slice_to_Nil: "slice_to [] n = []"
  by (simp add: slice_to_def)

lemma slice_to_take: "slice_to xs n = take (length (slice_to xs n)) xs"
  by (auto simp: slice_to_def min_def)

lemma slice_to_drop: "slice_to xs n @ drop (length (slice_to xs n)) xs = xs"
  by (metis append_take_drop_id slice_to_take)

lemma slice_to_nonneg: "0 \<le> n \<Longrightarrow> slice_to xs n = take (nat n) xs"
  by (simp add: slice_to_def)

lemma set_slice_to: "set (slice_to xs n) \<subseteq> set xs"
  by (metis set_take_subset slice_to_take)

section \<open>consume: the loop in closed form\<close>

lemma consume_loop_eq:
  "consume_loop n logs acc =
     (acc @ concat (map (\<lambda>pm. slice_to pm n) logs),
      map (\<lambda>pm. drop (length (slice_to pm n)) pm) logs)"
  by (induction logs arbitrary: acc) (simp_all add: slice_to_Nil Let_def)

lemma consume_free:
  assumes "\<not> lock b" and "topics b t = Some td"
  shows "consume t g n b =
     Some (concat (map (\<lambda>pm. slice_to pm n) (messages td)),
           b\<lparr>topics := (topics b)(t \<mapsto>
                td\<lparr>messages := map (\<lambda>pm. drop (length (slice_to pm n)) pm) (messages td)\<rparr>)\<rparr>)"
  using assms
  by (cases b) (simp add: consume_def with_lock_def consume_body_def consume_loop_eq)

lemma consume_unknown:
  assumes "\<not> lock b" and "topics b t = None"
  shows "consume t g n b = Some ([], b)"
  using assms
  by (cases b) (simp add: consume_def with_lock_def consume_body_def)

text \<open>
  When the elements of the \<open>j\<close>-th list all carry the number \<open>j\<close>, filtering the
  concatenation for number \<open>i\<close> gives back the \<open>i\<close>-th list.
\<close>

lemma filter_concat_index:
  assumes "\<forall>j < length xss. \<forall>m \<in> set (xss ! j). f m = int j"
  shows "filter (\<lambda>m. f m = int i) (concat xss) = (if i < length xss then xss ! i else [])"
  using assms
proof (induction xss rule: rev_induct)
  case Nil
  then show ?case by simp
next
  case (snoc xs xss)
  have a: "\<forall>j < length xss. \<forall>m \<in> set (xss ! j). f m = int j"
    using snoc.prems by (auto simp: nth_append split: if_splits)
  have b: "\<forall>m \<in> set xs. f m = int (length xss)"
    using snoc.prems by (auto simp: nth_append dest: spec [of _ "length xss"])
  show ?case
  proof (cases "i = length xss")
    case True
    have "filter (\<lambda>m. f m = int i) xs = xs"
      using b True by (simp add: filter_id_conv)
    then show ?thesis using snoc.IH [OF a] True by simp
  next
    case False
    have "filter (\<lambda>m. f m = int i) xs = []"
      using b False by (auto simp: filter_empty_conv)
    then show ?thesis using snoc.IH [OF a] False by (auto simp: nth_append)
  qed
qed

section \<open>Topic creation\<close>

text \<open>
  C3: \<^verbatim>\<open>create_topic\<close> for a name that exists is a no-op: it returns, and it leaves the
  broker as it was, whatever the number of partitions asked for. Hence the partition
  count and the logs of the topic stay what the first creation made them.
\<close>

theorem create_topic_idempotent:
  assumes "\<not> lock b" and "topics b t = Some td"
  shows "create_topic t n b = Some b"
  using assms by (simp add: create_topic_free create_topic_body_def)

text \<open>
  The instance of the specification: \<^verbatim>\<open>create_topic("t", 4)\<close> on a new broker, then
  \<^verbatim>\<open>create_topic("t", 9)\<close>.
\<close>

theorem create_topic_idempotent_witness:
  "create_topic ''t'' 4 (new_broker :: nat StreamBroker) = Some (create_topic_body ''t'' 4 new_broker)
   \<and> create_topic ''t'' 9 (create_topic_body ''t'' 4 (new_broker :: nat StreamBroker))
       = Some (create_topic_body ''t'' 4 new_broker)
   \<and> topics (create_topic_body ''t'' 4 (new_broker :: nat StreamBroker)) ''t''
       = Some \<lparr>partitions = 4, messages = [[], [], [], []]\<rparr>"
proof -
  let ?b1 = "create_topic_body ''t'' 4 (new_broker :: nat StreamBroker)"
  have l: "\<not> lock ?b1" by (simp add: create_topic_body_def new_broker_def)
  have t: "topics ?b1 ''t'' = Some \<lparr>partitions = 4, messages = [[], [], [], []]\<rparr>"
    by (simp add: create_topic_body_def new_broker_def numeral_eq_Suc)
  have c: "create_topic ''t'' 4 (new_broker :: nat StreamBroker) = Some ?b1"
    by (simp add: create_topic_free new_broker_def)
  show ?thesis using create_topic_idempotent [OF l t, of 9] c t by simp
qed

section \<open>Publishing to an unknown topic\<close>

lemma publish_body_unknown_held:
  "lock b \<Longrightarrow> topics b (topic m) = None \<Longrightarrow> publish_body h m b = None"
  by (simp add: publish_body_def create_topic_held)

text \<open>
  For an unknown topic \<^verbatim>\<open>publish\<close> calls \<^verbatim>\<open>create_topic\<close> while it holds the lock, and
  \<^verbatim>\<open>create_topic\<close> waits for that lock: the call does not return, whatever the broker,
  the message and the hash.
\<close>

lemma publish_unknown_topic_blocks:
  "topics b (topic m) = None \<Longrightarrow> publish h m b = None"
  by (simp add: publish_def with_lock_def publish_body_unknown_held)

text \<open>
  C4: publishing a record whose topic is unknown should create the topic with one
  partition, store the record and return true. On a new broker the call of the code
  does not return.
\<close>

theorem publish_unknown_topic_never_returns:
  "publish (int \<circ> length)
     \<lparr>topic = ''events'', key = ''k1'', msg_value = (10::nat), timestamp = 0, partition_idx = 0\<rparr>
     new_broker = None"
  by (simp add: publish_def with_lock_def publish_body_def create_topic_def new_broker_def)

section \<open>Publishing to a known topic\<close>

lemma publish_known:
  assumes "\<not> lock b" and "topics b (topic m) = Some td"
  shows "publish h m b =
     Some (case py_mod (h (key m)) (partitions td) of
             Inl e \<Rightarrow> (False, m, b)
           | Inr p \<Rightarrow>
               (case list_index (messages td) p of
                  Inl e \<Rightarrow> (False, m\<lparr>partition_idx := p\<rparr>, b)
                | Inr i \<Rightarrow>
                    (True, m\<lparr>partition_idx := p\<rparr>,
                     b\<lparr>topics := (topics b)(topic m \<mapsto>
                          td\<lparr>messages :=
                               (messages td)[i := messages td ! i @ [m\<lparr>partition_idx := p\<rparr>]]\<rparr>)\<rparr>)))"
  using assms
  by (cases b)
     (simp add: publish_def with_lock_def publish_body_def Let_def split: sum.splits)

lemma publish_Some_lock: "publish h m b = Some (r, m', b') \<Longrightarrow> \<not> lock b \<and> \<not> lock b'"
  by (auto simp: publish_def with_lock_def split: if_splits option.splits prod.splits)

lemma publish_Some_known: "publish h m b = Some (r, m', b') \<Longrightarrow> \<exists>td. topics b (topic m) = Some td"
  by (cases "topics b (topic m)") (simp_all add: publish_unknown_topic_blocks)

lemma list_index_wf:
  assumes "length xs = nat n" and "1 \<le> n"
  shows "list_index xs (a mod n) = Inr (nat (a mod n))"
proof -
  have ge: "0 \<le> a mod n" and lt: "a mod n < n"
    using assms(2) by simp_all
  have "a mod n < int (length xs)" using lt assms by simp
  then show ?thesis using ge by (simp add: list_index_def)
qed

lemma list_index_wf_neg:
  assumes "length xs = nat n" and "n < 0"
  shows "list_index xs i = Inl IndexError"
  using assms by (simp add: list_index_def)

lemma publish_ok:
  assumes "\<not> lock b" and "topics b (topic m) = Some td" and "wf_topic (topic m) td"
    and "1 \<le> partitions td"
  shows "publish h m b =
     Some (True, m\<lparr>partition_idx := h (key m) mod partitions td\<rparr>,
           b\<lparr>topics := (topics b)(topic m \<mapsto>
                td\<lparr>messages := (messages td)[nat (h (key m) mod partitions td) :=
                       messages td ! nat (h (key m) mod partitions td)
                         @ [m\<lparr>partition_idx := h (key m) mod partitions td\<rparr>]]\<rparr>)\<rparr>)"
proof -
  have "length (messages td) = nat (partitions td)"
    using assms(3) by (simp add: wf_topic_def)
  then have "list_index (messages td) (h (key m) mod partitions td)
               = Inr (nat (h (key m) mod partitions td))"
    using assms(4) by (rule list_index_wf)
  moreover have "py_mod (h (key m)) (partitions td) = Inr (h (key m) mod partitions td)"
    using assms(4) by (simp add: py_mod_def)
  ultimately show ?thesis
    by (simp add: publish_known [OF assms(1,2)])
qed

lemma publish_fail_nonpos:
  assumes "\<not> lock b" and "topics b (topic m) = Some td" and "wf_topic (topic m) td"
    and "partitions td \<le> 0"
  shows "\<exists>m'. publish h m b = Some (False, m', b)"
proof (cases "partitions td = 0")
  case True
  then show ?thesis by (simp add: publish_known [OF assms(1,2)] py_mod_def)
next
  case False
  then have neg: "partitions td < 0" using assms(4) by simp
  have "length (messages td) = nat (partitions td)"
    using assms(3) by (simp add: wf_topic_def)
  then have "list_index (messages td) (h (key m) mod partitions td) = Inl IndexError"
    using neg by (rule list_index_wf_neg)
  then show ?thesis using False
    by (simp add: publish_known [OF assms(1,2)] py_mod_def)
qed

lemma publish_zero_partitions:
  assumes "\<not> lock b" and "topics b (topic m) = Some td" and "partitions td = 0"
  shows "publish h m b = Some (False, m, b)"
  using assms(3) by (simp add: publish_known [OF assms(1,2)] py_mod_def)

lemma publish_all_zero_partitions:
  assumes "\<not> lock b" and "topics b t = Some td" and "partitions td = 0"
    and "\<forall>m \<in> set ms. topic m = t"
  shows "publish_all h ms b = Some (replicate (length ms) False, b)"
  using assms(4)
proof (induction ms)
  case Nil
  then show ?case by simp
next
  case (Cons m ms)
  have "publish h m b = Some (False, m, b)"
    using assms(1,2,3) Cons.prems by (simp add: publish_zero_partitions)
  then show ?case using Cons by simp
qed

lemma wf_topic_created: "wf_topic t \<lparr>partitions = n, messages = replicate (nat n) []\<rparr>"
  by (simp add: wf_topic_def)

lemma topics_created:
  "topics b t = None \<Longrightarrow>
   topics (create_topic_body t n b) t = Some \<lparr>partitions = n, messages = replicate (nat n) []\<rparr>"
  by (simp add: create_topic_body_def)

lemma wf_topic_append:
  assumes "wf_topic t td" and "i < length (messages td)" and "topic m = t"
    and "partition_idx m = int i"
  shows "wf_topic t (td\<lparr>messages := (messages td)[i := messages td ! i @ [m]]\<rparr>)"
  using assms by (auto simp: wf_topic_def nth_list_update)

lemma wf_topic_consumed:
  assumes "wf_topic t td"
  shows "wf_topic t (td\<lparr>messages := map (\<lambda>pm. drop (length (slice_to pm n)) pm) (messages td)\<rparr>)"
  using assms by (auto simp: wf_topic_def dest: in_set_dropD)

lemma publish_True_positive:
  assumes "topics b (topic m) = Some td" and "wf_topic (topic m) td"
    and "publish h m b = Some (True, m', b')"
  shows "1 \<le> partitions td"
proof (rule ccontr)
  assume "\<not> 1 \<le> partitions td"
  then have "partitions td \<le> 0" by simp
  moreover have "\<not> lock b" using assms(3) by (simp add: publish_Some_lock)
  ultimately obtain m'' where "publish h m b = Some (False, m'', b)"
    using publish_fail_nonpos [OF _ assms(1,2)] by blast
  then show False using assms(3) by simp
qed

lemma consume_keeps:
  assumes "\<not> lock b" and "topics b t = Some td" and "i < length (messages td)"
    and "m \<in> set (messages td ! i)"
  shows "\<exists>msgs b' td'. consume t g n b = Some (msgs, b') \<and> topics b' t = Some td'
           \<and> partitions td' = partitions td
           \<and> (m \<in> set msgs \<or> m \<in> set (messages td' ! i))"
proof -
  let ?l = "messages td ! i"
  have "m \<in> set (slice_to ?l n @ drop (length (slice_to ?l n)) ?l)"
    using assms(4) by (simp only: slice_to_drop)
  then have "m \<in> set (slice_to ?l n) \<or> m \<in> set (drop (length (slice_to ?l n)) ?l)"
    by auto
  moreover have "set (slice_to ?l n) \<subseteq> set (concat (map (\<lambda>pm. slice_to pm n) (messages td)))"
    using assms(3) by (auto intro!: bexI [of _ ?l])
  ultimately show ?thesis
    using assms(3) by (auto simp: consume_free [OF assms(1,2)])
qed

section \<open>Topics without partitions\<close>

text \<open>
  C10: \<^verbatim>\<open>create_topic(name, 0)\<close> on an unknown name returns and creates a topic with
  zero partitions and no log; every publish to that topic afterwards returns false
  (the division by zero is caught inside \<^verbatim>\<open>publish\<close>) and leaves the broker as it was.
\<close>

theorem zero_partition_topic_rejects_publish:
  assumes "\<not> lock b" and "topics b t = None" and "\<forall>m \<in> set ms. topic m = t"
  shows "create_topic t 0 b = Some (create_topic_body t 0 b)
         \<and> topics (create_topic_body t 0 b) t = Some \<lparr>partitions = 0, messages = []\<rparr>
         \<and> publish_all h ms (create_topic_body t 0 b)
             = Some (replicate (length ms) False, create_topic_body t 0 b)"
proof -
  let ?b1 = "create_topic_body t 0 b"
  have l: "\<not> lock ?b1" using assms(1) by (simp add: create_topic_body_def)
  have t: "topics ?b1 t = Some \<lparr>partitions = 0, messages = []\<rparr>"
    using assms(2) by (simp add: create_topic_body_def)
  have "publish_all h ms ?b1 = Some (replicate (length ms) False, ?b1)"
    using l t _ assms(3) by (rule publish_all_zero_partitions) simp
  then show ?thesis using t assms(1) by (simp add: create_topic_free)
qed

text \<open>The instance: a new broker, the topic \<^verbatim>\<open>t\<close> and two records.\<close>

theorem zero_partition_topic_rejects_publish_witness:
  "create_topic ''t'' 0 (new_broker :: nat StreamBroker) = Some (create_topic_body ''t'' 0 new_broker)
   \<and> topics (create_topic_body ''t'' 0 (new_broker :: nat StreamBroker)) ''t''
        = Some \<lparr>partitions = 0, messages = []\<rparr>
   \<and> publish_all (\<lambda>k. int (length k))
        [\<lparr>topic = ''t'', key = ''a'', msg_value = 1, timestamp = 0, partition_idx = 0\<rparr>,
         \<lparr>topic = ''t'', key = ''bc'', msg_value = 2, timestamp = 1, partition_idx = 0\<rparr>]
        (create_topic_body ''t'' 0 (new_broker :: nat StreamBroker))
        = Some ([False, False], create_topic_body ''t'' 0 new_broker)"
proof -
  have l: "\<not> lock (new_broker :: nat StreamBroker)" by (simp add: new_broker_def)
  have u: "topics (new_broker :: nat StreamBroker) ''t'' = None" by (simp add: new_broker_def)
  have a: "\<forall>m \<in> set [\<lparr>topic = ''t'', key = ''a'', msg_value = 1::nat, timestamp = 0, partition_idx = 0\<rparr>,
         \<lparr>topic = ''t'', key = ''bc'', msg_value = 2, timestamp = 1, partition_idx = 0\<rparr>]. topic m = ''t''"
    by simp
  show ?thesis
    using zero_partition_topic_rejects_publish [OF l u a, of "\<lambda>k. int (length k)"] by simp
qed

section \<open>The partition of a published record\<close>

text \<open>
  C7: a record that \<^verbatim>\<open>publish\<close> accepts (the call returns true) has a partition in
  \<open>[0, partition_count)\<close> of its topic. \<^verbatim>\<open>publish\<close> changes the partition field and no
  other field of the record; the record is the last one of the log of that partition
  and the partition count stays. Later the field keeps its value: publishing the same
  record again assigns the same partition, and \<^verbatim>\<open>consume\<close> hands the stored record
  out as it is or leaves it in its log.
\<close>

theorem published_record_partition:
  assumes "topics b (topic m) = Some td" and "wf_topic (topic m) td"
    and "publish h m b = Some (True, m', b')"
  shows "0 \<le> partition_idx m' \<and> partition_idx m' < partitions td
     \<and> m' = m\<lparr>partition_idx := h (key m) mod partitions td\<rparr>
     \<and> (\<exists>td'. topics b' (topic m) = Some td' \<and> partitions td' = partitions td
            \<and> wf_topic (topic m) td'
            \<and> messages td' ! nat (partition_idx m')
                = messages td ! nat (partition_idx m') @ [m'])
     \<and> (\<exists>b''. publish h m' b' = Some (True, m', b''))
     \<and> (\<forall>g n. \<exists>msgs b'' td''. consume (topic m) g n b' = Some (msgs, b'')
            \<and> topics b'' (topic m) = Some td'' \<and> partitions td'' = partitions td
            \<and> (m' \<in> set msgs \<or> m' \<in> set (messages td'' ! nat (partition_idx m'))))"
proof -
  let ?p = "h (key m) mod partitions td"
  let ?m = "m\<lparr>partition_idx := ?p\<rparr>"
  let ?td = "td\<lparr>messages := (messages td)[nat ?p := messages td ! nat ?p @ [?m]]\<rparr>"
  have pos: "1 \<le> partitions td" using assms by (rule publish_True_positive)
  have l: "\<not> lock b" and l': "\<not> lock b'" using assms(3) by (simp_all add: publish_Some_lock)
  have len: "length (messages td) = nat (partitions td)" using assms(2) by (simp add: wf_topic_def)
  have ge: "0 \<le> ?p" and lt: "?p < partitions td" using pos by simp_all
  have i: "nat ?p < length (messages td)" using ge lt len by linarith
  have eq: "m' = ?m" and b': "b' = b\<lparr>topics := (topics b)(topic m \<mapsto> ?td)\<rparr>"
    using assms(3) unfolding publish_ok [OF l assms(1,2) pos] by auto
  have t': "topics b' (topic m) = Some ?td" by (simp add: b')
  have wf': "wf_topic (topic m) ?td"
    using assms(2) i ge by (intro wf_topic_append) simp_all
  have log: "messages ?td ! nat ?p = messages td ! nat ?p @ [m']"
    using i by (simp add: eq)
  have tm: "topic m' = topic m" and km: "key m' = key m" by (simp_all add: eq)
  have again: "\<exists>b''. publish h m' b' = Some (True, m', b'')"
    using publish_ok [of b' m' ?td h] l' t' wf' pos by (simp add: tm km) (simp add: eq)
  have mem: "m' \<in> set (messages ?td ! nat ?p)" using log by simp
  have i': "nat ?p < length (messages ?td)" using i by simp
  have cons: "\<exists>msgs b'' td''. consume (topic m) g n b' = Some (msgs, b'')
            \<and> topics b'' (topic m) = Some td'' \<and> partitions td'' = partitions td
            \<and> (m' \<in> set msgs \<or> m' \<in> set (messages td'' ! nat ?p))" for g n
    using consume_keeps [OF l' t' i' mem, of g n] by simp
  have pm: "partition_idx m' = ?p" by (simp add: eq)
  show ?thesis
    unfolding pm
    using ge lt eq t' wf' log again cons by (intro conjI allI) auto
qed

text \<open>The instance: a topic with three partitions and a key of length two.\<close>

theorem published_record_partition_witness:
  "(case publish (\<lambda>k. int (length k))
           \<lparr>topic = ''t'', key = ''ab'', msg_value = 7::nat, timestamp = 0, partition_idx = 0\<rparr>
           (create_topic_body ''t'' 3 new_broker) of
      None \<Rightarrow> False
    | Some (r, m', b') \<Rightarrow>
        r \<and> partition_idx m' = 2 \<and> 0 \<le> partition_idx m' \<and> partition_idx m' < 3
        \<and> map_option messages (topics b' ''t'') = Some [[], [], [m']])"
proof -
  let ?h = "\<lambda>k::string. int (length k)"
  let ?m = "\<lparr>topic = ''t'', key = ''ab'', msg_value = 7::nat, timestamp = 0, partition_idx = 0\<rparr>"
  let ?b = "create_topic_body ''t'' 3 (new_broker :: nat StreamBroker)"
  let ?td = "\<lparr>partitions = 3, messages = replicate (nat 3) []\<rparr> :: nat topic_data"
  have l: "\<not> lock ?b" by (simp add: create_topic_body_def new_broker_def)
  have t: "topics ?b (topic ?m) = Some ?td"
    by (simp add: create_topic_body_def new_broker_def)
  have wf: "wf_topic (topic ?m) ?td" by (rule wf_topic_created)
  have pos: "1 \<le> partitions ?td" by simp
  have p: "publish ?h ?m ?b = Some (True, ?m\<lparr>partition_idx := 2\<rparr>,
      ?b\<lparr>topics := (topics ?b)(''t'' \<mapsto> ?td\<lparr>messages := [[], [], [?m\<lparr>partition_idx := 2\<rparr>]]\<rparr>)\<rparr>)"
    unfolding publish_ok [OF l t wf pos, of ?h] by (simp add: eval_nat_numeral)
  show ?thesis
    using published_record_partition [OF t wf p] unfolding p by simp
qed

section \<open>The empty key\<close>

text \<open>
  C8: for a topic with any number of partitions (at least one, as the data model of
  topics has it), and a hash that maps the empty string to 0 as Python's does,
  publishing a record with the empty key returns true, assigns it partition 0 and
  appends it to the log of partition 0.
\<close>

theorem empty_key_routes_to_partition_zero:
  assumes "hash [] = 0" and "key m = []"
    and "\<not> lock b" and "topics b (topic m) = Some td" and "wf_topic (topic m) td"
    and "1 \<le> partitions td"
  shows "publish hash m b =
     Some (True, m\<lparr>partition_idx := 0\<rparr>,
           b\<lparr>topics := (topics b)(topic m \<mapsto>
                td\<lparr>messages := (messages td)[0 := messages td ! 0 @ [m\<lparr>partition_idx := 0\<rparr>]]\<rparr>)\<rparr>)"
  using assms(1,2) by (simp add: publish_ok [OF assms(3,4,5,6)])

text \<open>The instance: a topic with three partitions; the record comes with partition 5.\<close>

theorem empty_key_routes_to_partition_zero_witness:
  "(case publish (\<lambda>k. int (length k))
           \<lparr>topic = ''t'', key = [], msg_value = 7::nat, timestamp = 0, partition_idx = 5\<rparr>
           (create_topic_body ''t'' 3 new_broker) of
      None \<Rightarrow> False
    | Some (r, m', b') \<Rightarrow>
        r \<and> partition_idx m' = 0
        \<and> map_option messages (topics b' ''t'') = Some [[m'], [], []])"
proof -
  let ?h = "\<lambda>k::string. int (length k)"
  let ?m = "\<lparr>topic = ''t'', key = [], msg_value = 7::nat, timestamp = 0, partition_idx = 5\<rparr>"
  let ?b = "create_topic_body ''t'' 3 (new_broker :: nat StreamBroker)"
  let ?td = "\<lparr>partitions = 3, messages = replicate (nat 3) []\<rparr> :: nat topic_data"
  have h0: "?h [] = 0" by simp
  have k: "key ?m = []" by simp
  have l: "\<not> lock ?b" by (simp add: create_topic_body_def new_broker_def)
  have t: "topics ?b (topic ?m) = Some ?td"
    by (simp add: create_topic_body_def new_broker_def)
  have wf: "wf_topic (topic ?m) ?td" by (rule wf_topic_created)
  have pos: "1 \<le> partitions ?td" by simp
  show ?thesis
    unfolding empty_key_routes_to_partition_zero [of ?h, OF h0 k l t wf pos]
    by (simp add: eval_nat_numeral)
qed

section \<open>The bound of consume\<close>

lemma length_concat_take: "length (concat (map (take k) xss)) \<le> k * length xss"
  by (induction xss) auto

lemma drop_slice_nonneg: "0 \<le> n \<Longrightarrow> drop (length (slice_to xs n)) xs = drop (nat n) xs"
  by (auto simp: slice_to_def min_def)

text \<open>
  C2 (as amended): for a known topic whose partition count is not negative and for
  \<open>max_messages \<ge> 0\<close>, \<^verbatim>\<open>consume\<close> takes the first \<open>max_messages\<close> records (or all, when
  there are fewer) from the log of each partition, in the order of the partitions,
  and removes them; the bound holds for each partition, so that the number of records
  returned is at most \<open>max_messages * partition_count\<close>.
\<close>

theorem consume_takes_per_partition:
  assumes "\<not> lock b" and "topics b t = Some td" and "wf_topic t td"
    and "0 \<le> partitions td" and "0 \<le> n"
  shows "consume t g n b =
           Some (concat (map (take (nat n)) (messages td)),
                 b\<lparr>topics := (topics b)(t \<mapsto> td\<lparr>messages := map (drop (nat n)) (messages td)\<rparr>)\<rparr>)
         \<and> int (length (concat (map (take (nat n)) (messages td)))) \<le> n * partitions td"
proof -
  have s: "(\<lambda>pm. slice_to pm n) = take (nat n)"
    using assms(5) by (auto simp: slice_to_nonneg)
  have d: "(\<lambda>pm. drop (length (slice_to pm n)) pm) = drop (nat n)"
    using assms(5) by (auto simp: drop_slice_nonneg)
  have c: "consume t g n b =
           Some (concat (map (take (nat n)) (messages td)),
                 b\<lparr>topics := (topics b)(t \<mapsto> td\<lparr>messages := map (drop (nat n)) (messages td)\<rparr>)\<rparr>)"
    unfolding consume_free [OF assms(1,2)] s d ..
  have len: "length (messages td) = nat (partitions td)"
    using assms(3) by (simp add: wf_topic_def)
  have "length (concat (map (take (nat n)) (messages td))) \<le> nat n * nat (partitions td)"
    using length_concat_take [of "nat n" "messages td"] by (simp add: len)
  then have "int (length (concat (map (take (nat n)) (messages td))))
               \<le> int (nat n * nat (partitions td))"
    by (simp only: of_nat_le_iff)
  also have "\<dots> = n * partitions td" using assms(4,5) by simp
  finally show ?thesis using c by simp
qed

text \<open>
  The instance: two partitions holding two records and one record, \<open>max_messages = 1\<close>.
  The call returns two records, one of each partition.
\<close>

theorem consume_takes_per_partition_witness:
  "consume ''t'' ''g'' 1
     \<lparr>topics = [''t'' \<mapsto> \<lparr>partitions = 2, messages =
         [[\<lparr>topic = ''t'', key = [], msg_value = 1::nat, timestamp = 0, partition_idx = 0\<rparr>,
           \<lparr>topic = ''t'', key = ''yy'', msg_value = 3, timestamp = 2, partition_idx = 0\<rparr>],
          [\<lparr>topic = ''t'', key = ''x'', msg_value = 2, timestamp = 1, partition_idx = 1\<rparr>]]\<rparr>],
      consumers = [''t'' \<mapsto> []], lock = False\<rparr>
   = Some ([\<lparr>topic = ''t'', key = [], msg_value = 1, timestamp = 0, partition_idx = 0\<rparr>,
            \<lparr>topic = ''t'', key = ''x'', msg_value = 2, timestamp = 1, partition_idx = 1\<rparr>],
     \<lparr>topics = [''t'' \<mapsto> \<lparr>partitions = 2, messages =
         [[\<lparr>topic = ''t'', key = ''yy'', msg_value = 3, timestamp = 2, partition_idx = 0\<rparr>],
          []]\<rparr>],
      consumers = [''t'' \<mapsto> []], lock = False\<rparr>)"
proof -
  let ?a = "\<lparr>topic = ''t'', key = [], msg_value = 1::nat, timestamp = 0, partition_idx = 0\<rparr>"
  let ?c = "\<lparr>topic = ''t'', key = ''yy'', msg_value = 3::nat, timestamp = 2, partition_idx = 0\<rparr>"
  let ?x = "\<lparr>topic = ''t'', key = ''x'', msg_value = 2::nat, timestamp = 1, partition_idx = 1\<rparr>"
  let ?td = "\<lparr>partitions = 2, messages = [[?a, ?c], [?x]]\<rparr>"
  let ?b = "\<lparr>topics = [''t'' \<mapsto> ?td], consumers = [''t'' \<mapsto> []], lock = False\<rparr>"
  have l: "\<not> lock ?b" by simp
  have t: "topics ?b ''t'' = Some ?td" by simp
  have wf: "wf_topic ''t'' ?td" by (simp add: wf_topic_def All_less_Suc numeral_2_eq_2)
  have p: "0 \<le> partitions ?td" by simp
  have n: "(0::int) \<le> 1" by simp
  show ?thesis
    using consume_takes_per_partition [OF l t wf p n, of "''g''"] by simp
qed

text \<open>
  C2 as stated fails for a negative \<open>max_messages\<close>: the slice
  \<^verbatim>\<open>partition_messages[:-1]\<close> is all of the log but its last record, so that
  \<^verbatim>\<open>consume\<close> with \<open>max_messages = -1\<close> on one partition with three records returns two
  records, more than \<open>max_messages * partition_count = -1\<close>.
\<close>

theorem consume_negative_max_counterexample:
  "consume ''t'' ''g'' (- 1)
     \<lparr>topics = [''t'' \<mapsto> \<lparr>partitions = 1, messages =
         [[\<lparr>topic = ''t'', key = ''a'', msg_value = 1::nat, timestamp = 0, partition_idx = 0\<rparr>,
           \<lparr>topic = ''t'', key = ''b'', msg_value = 2, timestamp = 1, partition_idx = 0\<rparr>,
           \<lparr>topic = ''t'', key = ''c'', msg_value = 3, timestamp = 2, partition_idx = 0\<rparr>]]\<rparr>],
      consumers = [''t'' \<mapsto> []], lock = False\<rparr>
   = Some ([\<lparr>topic = ''t'', key = ''a'', msg_value = 1, timestamp = 0, partition_idx = 0\<rparr>,
            \<lparr>topic = ''t'', key = ''b'', msg_value = 2, timestamp = 1, partition_idx = 0\<rparr>],
     \<lparr>topics = [''t'' \<mapsto> \<lparr>partitions = 1, messages =
         [[\<lparr>topic = ''t'', key = ''c'', msg_value = 3, timestamp = 2, partition_idx = 0\<rparr>]]\<rparr>],
      consumers = [''t'' \<mapsto> []], lock = False\<rparr>)
   \<and> \<not> int (length
         [\<lparr>topic = ''t'', key = ''a'', msg_value = 1::nat, timestamp = 0, partition_idx = 0\<rparr>,
          \<lparr>topic = ''t'', key = ''b'', msg_value = 2, timestamp = 1, partition_idx = 0\<rparr>])
       \<le> (- 1) * 1"
  by (simp add: consume_def with_lock_def consume_body_def slice_to_def)

section \<open>FIFO within a partition\<close>

lemma publish_all_logs:
  assumes "\<not> lock b" and "topics b t = Some td" and "wf_topic t td" and "1 \<le> partitions td"
    and "\<forall>m \<in> set ms. topic m = t"
  shows "\<exists>b1 td1. publish_all h ms b = Some (replicate (length ms) True, b1)
           \<and> \<not> lock b1 \<and> topics b1 t = Some td1 \<and> wf_topic t td1
           \<and> partitions td1 = partitions td
           \<and> (\<forall>i < length (messages td). messages td1 ! i =
                 messages td ! i @ map (\<lambda>m. m\<lparr>partition_idx := int i\<rparr>)
                                      (filter (\<lambda>m. h (key m) mod partitions td = int i) ms))"
  using assms
proof (induction ms arbitrary: b td)
  case Nil
  then show ?case by simp
next
  case (Cons m ms)
  let ?p = "h (key m) mod partitions td"
  let ?m = "m\<lparr>partition_idx := ?p\<rparr>"
  let ?td = "td\<lparr>messages := (messages td)[nat ?p := messages td ! nat ?p @ [?m]]\<rparr>"
  let ?b = "b\<lparr>topics := (topics b)(t \<mapsto> ?td)\<rparr>"
  have tm: "topic m = t" using Cons.prems(5) by simp
  have len: "length (messages td) = nat (partitions td)"
    using Cons.prems(3) by (simp add: wf_topic_def)
  have ge: "0 \<le> ?p" and lt: "?p < partitions td" using Cons.prems(4) by simp_all
  have i: "nat ?p < length (messages td)" using ge lt len by linarith
  have pub: "publish h m b = Some (True, ?m, ?b)"
    using publish_ok [of b m td h] Cons.prems(1,2,3,4) tm by simp
  have l': "\<not> lock ?b" using Cons.prems(1) by simp
  have t': "topics ?b t = Some ?td" by simp
  have wf': "wf_topic t ?td"
    using Cons.prems(3) i ge tm by (intro wf_topic_append) simp_all
  have pos': "1 \<le> partitions ?td" using Cons.prems(4) by simp
  have all': "\<forall>m \<in> set ms. topic m = t" using Cons.prems(5) by simp
  from Cons.IH [OF l' t' wf' pos' all']
  obtain b1 td1 where r: "publish_all h ms ?b = Some (replicate (length ms) True, b1)"
    and l1: "\<not> lock b1" and t1: "topics b1 t = Some td1" and wf1: "wf_topic t td1"
    and p1: "partitions td1 = partitions td"
    and logs: "\<forall>i < length (messages td). messages td1 ! i =
                 messages ?td ! i @ map (\<lambda>m. m\<lparr>partition_idx := int i\<rparr>)
                                      (filter (\<lambda>m. h (key m) mod partitions td = int i) ms)"
    by auto
  have step: "messages td1 ! j =
                 messages td ! j @ map (\<lambda>m. m\<lparr>partition_idx := int j\<rparr>)
                                      (filter (\<lambda>m. h (key m) mod partitions td = int j) (m # ms))"
    if j: "j < length (messages td)" for j
  proof (cases "j = nat ?p")
    case True
    then have "int j = ?p" using ge by simp
    then show ?thesis using logs j True by simp
  next
    case False
    then have "int j \<noteq> ?p" using ge by auto
    then show ?thesis using logs j False by simp
  qed
  have "publish_all h (m # ms) b = Some (replicate (length (m # ms)) True, b1)"
    using pub r by simp
  then show ?case using l1 t1 wf1 p1 step by blast
qed

lemma consume_times_logs:
  assumes "\<not> lock b" and "topics b t = Some td" and "wf_topic t td"
  shows "\<exists>batches b2 td2. consume_times k t g n b = Some (batches, b2)
           \<and> \<not> lock b2 \<and> topics b2 t = Some td2 \<and> wf_topic t td2
           \<and> partitions td2 = partitions td
           \<and> length (messages td2) = length (messages td)
           \<and> (\<forall>i < length (messages td).
                 filter (\<lambda>m. partition_idx m = int i) (concat batches) @ messages td2 ! i
                   = messages td ! i)"
  using assms
proof (induction k arbitrary: b td)
  case 0
  then show ?case by simp
next
  case (Suc k)
  let ?msgs = "concat (map (\<lambda>pm. slice_to pm n) (messages td))"
  let ?td = "td\<lparr>messages := map (\<lambda>pm. drop (length (slice_to pm n)) pm) (messages td)\<rparr>"
  let ?b = "b\<lparr>topics := (topics b)(t \<mapsto> ?td)\<rparr>"
  have c: "consume t g n b = Some (?msgs, ?b)"
    using Suc.prems(1,2) by (rule consume_free)
  have l': "\<not> lock ?b" using Suc.prems(1) by simp
  have t': "topics ?b t = Some ?td" by simp
  have wf': "wf_topic t ?td" using Suc.prems(3) by (rule wf_topic_consumed)
  from Suc.IH [OF l' t' wf']
  obtain batches b2 td2 where r: "consume_times k t g n ?b = Some (batches, b2)"
    and l2: "\<not> lock b2" and t2: "topics b2 t = Some td2" and wf2: "wf_topic t td2"
    and p2: "partitions td2 = partitions td"
    and len2: "length (messages td2) = length (messages td)"
    and logs: "\<forall>i < length (messages td).
                 filter (\<lambda>m. partition_idx m = int i) (concat batches) @ messages td2 ! i
                   = messages ?td ! i"
    by auto
  have idx: "\<forall>j < length (map (\<lambda>pm. slice_to pm n) (messages td)).
               \<forall>m \<in> set (map (\<lambda>pm. slice_to pm n) (messages td) ! j). partition_idx m = int j"
    using Suc.prems(3) set_slice_to by (fastforce simp: wf_topic_def)
  have f: "filter (\<lambda>m. partition_idx m = int i) ?msgs = slice_to (messages td ! i) n"
    if "i < length (messages td)" for i
    using filter_concat_index [OF idx, of i] that by simp
  have step: "filter (\<lambda>m. partition_idx m = int i) (concat (?msgs # batches)) @ messages td2 ! i
                = messages td ! i"
    if i: "i < length (messages td)" for i
  proof -
    have "filter (\<lambda>m. partition_idx m = int i) (concat (?msgs # batches)) @ messages td2 ! i
            = slice_to (messages td ! i) n
              @ (filter (\<lambda>m. partition_idx m = int i) (concat batches) @ messages td2 ! i)"
      using f [OF i] by simp
    also have "\<dots> = slice_to (messages td ! i) n
                       @ drop (length (slice_to (messages td ! i) n)) (messages td ! i)"
      using logs i by simp
    also have "\<dots> = messages td ! i" by (rule slice_to_drop)
    finally show ?thesis .
  qed
  have "consume_times (Suc k) t g n b = Some (?msgs # batches, b2)"
    using c r by simp
  then show ?case using l2 t2 wf2 p2 len2 step by blast
qed

lemma length_drop_slice:
  assumes "1 \<le> n"
  shows "length (drop (length (slice_to l n)) l) \<le> length l - 1"
proof -
  have "slice_to l n = take (nat n) l" using assms by (simp add: slice_to_nonneg)
  moreover have "1 \<le> nat n" using assms by simp
  ultimately show ?thesis by (cases l) (auto simp: min_def)
qed

lemma consume_times_progress:
  assumes "\<not> lock b" and "topics b t = Some td" and "1 \<le> n"
    and "consume_times k t g n b = Some (batches, b2)" and "topics b2 t = Some td2"
    and "i < length (messages td)"
  shows "length (messages td2 ! i) \<le> length (messages td ! i) - k"
  using assms
proof (induction k arbitrary: b td batches)
  case 0
  then show ?case by simp
next
  case (Suc k)
  let ?msgs = "concat (map (\<lambda>pm. slice_to pm n) (messages td))"
  let ?td = "td\<lparr>messages := map (\<lambda>pm. drop (length (slice_to pm n)) pm) (messages td)\<rparr>"
  let ?b = "b\<lparr>topics := (topics b)(t \<mapsto> ?td)\<rparr>"
  have c: "consume t g n b = Some (?msgs, ?b)"
    using Suc.prems(1,2) by (rule consume_free)
  obtain batches' where r: "consume_times k t g n ?b = Some (batches', b2)"
    using Suc.prems(4) c by (auto split: option.splits)
  have l': "\<not> lock ?b" using Suc.prems(1) by simp
  have t': "topics ?b t = Some ?td" by simp
  have i': "i < length (messages ?td)" using Suc.prems(6) by simp
  have "length (messages td2 ! i) \<le> length (messages ?td ! i) - k"
    using Suc.IH [OF l' t' Suc.prems(3) r Suc.prems(5) i'] .
  moreover have "length (messages ?td ! i) \<le> length (messages td ! i) - 1"
    using Suc.prems(6) length_drop_slice [OF Suc.prems(3)] by simp
  ultimately show ?case by linarith
qed

lemma all_nil_drop:
  "\<forall>l \<in> set xss. l = [] \<Longrightarrow> map (\<lambda>pm. drop (length (slice_to pm n)) pm) xss = xss"
  by (induction xss) (simp_all add: slice_to_Nil)

lemma all_nil_slices:
  "\<forall>l \<in> set xss. l = [] \<Longrightarrow> concat (map (\<lambda>pm. slice_to pm n) xss) = []"
  by (induction xss) (simp_all add: slice_to_Nil)

lemma consume_empty_logs:
  assumes "\<not> lock b" and "topics b t = Some td" and "\<forall>l \<in> set (messages td). l = []"
  shows "consume t g n b = Some ([], b)"
proof -
  have m: "map (\<lambda>pm. drop (length (slice_to pm n)) pm) (messages td) = messages td"
    using assms(3) by (rule all_nil_drop)
  have s: "concat (map (\<lambda>pm. slice_to pm n) (messages td)) = []"
    using assms(3) by (rule all_nil_slices)
  have "(topics b)(t \<mapsto> td) = topics b" using assms(2) by (rule map_upd_triv)
  then show ?thesis unfolding consume_free [OF assms(1,2)] m s by simp
qed

text \<open>
  C1: take a known topic \<open>t\<close> and one of its partitions \<open>i\<close>. Publishing the records
  \<open>ms\<close> to \<open>t\<close> returns and appends those routed to \<open>i\<close> to the log of \<open>i\<close>, in the
  order of publishing. Then \<open>k\<close> calls of \<^verbatim>\<open>consume\<close> in a row return, and the
  records of partition \<open>i\<close> in what they return, in the order returned, followed by
  what is left in the log, are the log as it was: each call takes from the head and
  removes what it returns, nothing is returned twice and nothing is lost. For
  \<open>max_messages \<ge> 1\<close> the log is empty after as many calls as it had records. Once
  all logs of the topic are empty, \<^verbatim>\<open>consume\<close> returns the empty list.
\<close>

theorem fifo_within_partition:
  assumes "\<not> lock b" and "topics b t = Some td" and "wf_topic t td"
    and "i < length (messages td)" and "\<forall>m \<in> set ms. topic m = t"
  shows "\<exists>rs b1 td1 batches b2 td2.
      publish_all h ms b = Some (rs, b1) \<and> topics b1 t = Some td1
      \<and> messages td1 ! i =
          messages td ! i @ map (\<lambda>m. m\<lparr>partition_idx := int i\<rparr>)
                               (filter (\<lambda>m. h (key m) mod partitions td = int i) ms)
      \<and> consume_times k t g n b1 = Some (batches, b2) \<and> topics b2 t = Some td2
      \<and> filter (\<lambda>m. partition_idx m = int i) (concat batches) @ messages td2 ! i
          = messages td1 ! i
      \<and> (1 \<le> n \<and> length (messages td1 ! i) \<le> k \<longrightarrow> messages td2 ! i = [])
      \<and> ((\<forall>l \<in> set (messages td2). l = []) \<longrightarrow> consume t g n b2 = Some ([], b2))"
proof -
  have len: "length (messages td) = nat (partitions td)"
    using assms(3) by (simp add: wf_topic_def)
  have pos: "1 \<le> partitions td" using assms(4) len by linarith
  from publish_all_logs [OF assms(1,2,3) pos assms(5), of h]
  obtain b1 td1 where pa: "publish_all h ms b = Some (replicate (length ms) True, b1)"
    and l1: "\<not> lock b1" and t1: "topics b1 t = Some td1" and wf1: "wf_topic t td1"
    and p1: "partitions td1 = partitions td"
    and log1: "messages td1 ! i =
                 messages td ! i @ map (\<lambda>m. m\<lparr>partition_idx := int i\<rparr>)
                                      (filter (\<lambda>m. h (key m) mod partitions td = int i) ms)"
    using assms(4) by blast
  have i1: "i < length (messages td1)"
    using wf1 p1 len assms(4) by (simp add: wf_topic_def)
  from consume_times_logs [OF l1 t1 wf1, of k g n]
  obtain batches b2 td2 where ct: "consume_times k t g n b1 = Some (batches, b2)"
    and l2: "\<not> lock b2" and t2: "topics b2 t = Some td2"
    and log2: "filter (\<lambda>m. partition_idx m = int i) (concat batches) @ messages td2 ! i
                 = messages td1 ! i"
    using i1 by blast
  have prog: "messages td2 ! i = []" if "1 \<le> n" and "length (messages td1 ! i) \<le> k"
    using consume_times_progress [OF l1 t1 that(1) ct t2 i1] that(2) by simp
  have emp: "consume t g n b2 = Some ([], b2)" if "\<forall>l \<in> set (messages td2). l = []"
    using l2 t2 that by (rule consume_empty_logs)
  show ?thesis
    using pa t1 log1 ct t2 log2 prog emp by blast
qed

text \<open>
  The instance: three records published to a new topic with two partitions, the first
  and the third routed to partition 0; two calls of \<^verbatim>\<open>consume\<close> with
  \<open>max_messages = 1\<close>.
\<close>

theorem fifo_within_partition_witness:
  "(case publish_all (\<lambda>k. int (length k))
           [\<lparr>topic = ''t'', key = [], msg_value = 1::nat, timestamp = 0, partition_idx = 0\<rparr>,
            \<lparr>topic = ''t'', key = ''x'', msg_value = 2, timestamp = 1, partition_idx = 0\<rparr>,
            \<lparr>topic = ''t'', key = ''yy'', msg_value = 3, timestamp = 2, partition_idx = 0\<rparr>]
           (create_topic_body ''t'' 2 new_broker) of
      None \<Rightarrow> False
    | Some (rs, b1) \<Rightarrow>
        rs = [True, True, True] \<and>
        (case consume_times 2 ''t'' ''g'' 1 b1 of
           None \<Rightarrow> False
         | Some (batches, b2) \<Rightarrow>
             batches =
               [[\<lparr>topic = ''t'', key = [], msg_value = 1, timestamp = 0, partition_idx = 0\<rparr>,
                 \<lparr>topic = ''t'', key = ''x'', msg_value = 2, timestamp = 1, partition_idx = 1\<rparr>],
                [\<lparr>topic = ''t'', key = ''yy'', msg_value = 3, timestamp = 2, partition_idx = 0\<rparr>]]
             \<and> map_option messages (topics b2 ''t'') = Some [[], []]))"
proof -
  let ?h = "\<lambda>k::string. int (length k)"
  let ?ms = "[\<lparr>topic = ''t'', key = [], msg_value = 1::nat, timestamp = 0, partition_idx = 0\<rparr>,
            \<lparr>topic = ''t'', key = ''x'', msg_value = 2, timestamp = 1, partition_idx = 0\<rparr>,
            \<lparr>topic = ''t'', key = ''yy'', msg_value = 3, timestamp = 2, partition_idx = 0\<rparr>]"
  let ?b = "create_topic_body ''t'' 2 (new_broker :: nat StreamBroker)"
  let ?td = "\<lparr>partitions = 2, messages = replicate (nat 2) []\<rparr> :: nat topic_data"
  have l: "\<not> lock ?b" by (simp add: create_topic_body_def new_broker_def)
  have t: "topics ?b ''t'' = Some ?td" by (simp add: create_topic_body_def new_broker_def)
  have wf: "wf_topic ''t'' ?td" by (rule wf_topic_created)
  have i: "0 < length (messages ?td)" by simp
  have a: "\<forall>m \<in> set ?ms. topic m = ''t''" by simp
  have ev: "publish_all ?h ?ms ?b = Some ([True, True, True],
      \<lparr>topics = [''t'' \<mapsto> \<lparr>partitions = 2, messages =
         [[\<lparr>topic = ''t'', key = [], msg_value = 1::nat, timestamp = 0, partition_idx = 0\<rparr>,
           \<lparr>topic = ''t'', key = ''yy'', msg_value = 3, timestamp = 2, partition_idx = 0\<rparr>],
          [\<lparr>topic = ''t'', key = ''x'', msg_value = 2, timestamp = 1, partition_idx = 1\<rparr>]]\<rparr>],
       consumers = [''t'' \<mapsto> []], lock = False\<rparr>)"
    by (simp add: publish_def with_lock_def publish_body_def create_topic_body_def new_broker_def
                  py_mod_def list_index_def Let_def eval_nat_numeral)
  show ?thesis
    using fifo_within_partition [OF l t wf i a, of ?h 2 "''g''" 1]
    unfolding ev
    by (simp add: consume_def with_lock_def consume_body_def slice_to_def Let_def eval_nat_numeral)
qed

section \<open>Subscribing twice\<close>

lemma add_consumer_eq:
  "add_consumer t c b =
     b\<lparr>consumers := (consumers b)(t \<mapsto> (case consumers b t of None \<Rightarrow> [] | Some cs \<Rightarrow> cs) @ [c])\<rparr>"
  by (cases b) (simp add: add_consumer_def split: option.splits)

text \<open>
  C6 (as amended): a second \<^verbatim>\<open>subscribe([t])\<close> raises nothing and leaves the consumer,
  and so its set of subscribed topics, as the first call left it; in the broker the
  topics, the logs and the lock stay, and the list of consumers registered for \<open>t\<close>
  gets the consumer once more, so that it holds the consumer twice.
\<close>

theorem resubscribe_registers_again:
  "subscribe [t] (fst (subscribe [t] c b)) (snd (subscribe [t] c b)) =
     (fst (subscribe [t] c b),
      (snd (subscribe [t] c b))\<lparr>consumers := (consumers (snd (subscribe [t] c b)))(t \<mapsto>
          (case consumers b t of None \<Rightarrow> [] | Some cs \<Rightarrow> cs)
            @ [consumer_id c, consumer_id c])\<rparr>)"
  by (cases b) (simp add: subscribe_def add_consumer_eq)

text \<open>
  C6 as stated fails: after the first call the list of consumers of the topic holds
  the consumer once, after the second call twice, so the state of the broker is not the
  one after the first call.
\<close>

theorem resubscribe_counterexample:
  "consumers (snd (subscribe [''t'']
        \<lparr>consumer_id = 1, group_id = ''g'', subscribed_topics = {}, running = False,
         message_handler = None :: (nat, unit) handler option\<rparr> new_broker)) ''t'' = Some [1]
   \<and> consumers
        (snd (subscribe [''t'']
           (fst (subscribe [''t'']
              \<lparr>consumer_id = 1, group_id = ''g'', subscribed_topics = {}, running = False,
               message_handler = None :: (nat, unit) handler option\<rparr> new_broker))
           (snd (subscribe [''t'']
              \<lparr>consumer_id = 1, group_id = ''g'', subscribed_topics = {}, running = False,
               message_handler = None :: (nat, unit) handler option\<rparr> new_broker)))) ''t''
       = Some [1, 1]"
  by (simp add: subscribe_def add_consumer_eq new_broker_def)

section \<open>Faults of handlers\<close>

lemma deliver_append:
  "deliver mh (xs @ ys) s =
     (case deliver mh xs s of
        None \<Rightarrow> None
      | Some (Raised, s') \<Rightarrow> Some (Raised, s')
      | Some (Returned, s') \<Rightarrow> deliver mh ys s')"
  by (induction xs arbitrary: s)
     (auto split: option.splits completion.splits prod.splits)

lemma poll_topics_append:
  "poll_topics c (ts @ us) s =
     (case poll_topics c ts s of
        None \<Rightarrow> None
      | Some (Raised, s') \<Rightarrow> Some (Raised, s')
      | Some (Returned, s') \<Rightarrow> poll_topics c us s')"
  by (induction ts arbitrary: s)
     (auto split: option.splits completion.splits prod.splits)

lemma poll_topics_running: "poll_topics (c\<lparr>running := r\<rparr>) ts s = poll_topics c ts s"
  by (induction ts arbitrary: s)
     (auto split: option.splits completion.splits prod.splits)

lemma sweep_running: "sweep iter (c\<lparr>running := r\<rparr>) s = sweep iter c s"
  by (simp add: sweep_def poll_topics_running)

lemma start_consuming_Suc:
  "start_consuming (Suc n) iter c s =
     (case sweep iter c s of None \<Rightarrow> None | Some s' \<Rightarrow> start_consuming n iter c s')"
  by (simp add: start_consuming_def sweep_running split: option.splits)

lemma processor_handler_transform_fault:
  "f (msg_value m) = Inl e \<Longrightarrow> processor_handler hash now out f m s = Some (Returned, s)"
  by (simp add: processor_handler_def)

text \<open>
  C5 (as amended): when the handler of a consumer raises on a record \<open>m\<close> of a sweep,
  the fault is caught at the boundary of the poll loop: the sweep ends in the state
  that the raising call leaves, so that the records that \<^verbatim>\<open>consume\<close> returned after \<open>m\<close>
  (\<open>post\<close>, already removed from the log) are not handed to the handler and the
  topics after \<open>t\<close> are not polled in this sweep; the loop goes on with the next sweep
  from that state. The handler of a processor does not raise when its transformation
  raises: the record is skipped and the records after it are delivered.
\<close>

theorem handler_fault_ends_sweep:
  assumes "iter (subscribed_topics c) = tpre @ t # tpost"
    and "poll_topics c tpre s = Some (Returned, sp)"
    and "consume t (group_id c) 10 (fst sp) = Some (pre @ m # post, bc)"
    and "message_handler c = Some h"
    and "deliver (Some h) pre (bc, snd sp) = Some (Returned, sd)"
    and "h m sd = Some (Raised, sf)"
    and "f (msg_value m') = Inl e"
  shows "sweep iter c s = Some sf
         \<and> start_consuming (Suc n) iter c s = start_consuming n iter c sf
         \<and> deliver (Some (processor_handler hash now out f)) (m' # post') s'
             = deliver (Some (processor_handler hash now out f)) post' s'"
proof -
  have d: "deliver (Some h) (pre @ m # post) (bc, snd sp) = Some (Raised, sf)"
    using assms(5,6) by (simp add: deliver_append)
  have p: "poll_topics c (t # tpost) sp = Some (Raised, sf)"
    using assms(3,4) d by simp
  have "poll_topics c (tpre @ t # tpost) s = Some (Raised, sf)"
    using assms(2) p by (simp add: poll_topics_append)
  then have sw: "sweep iter c s = Some sf"
    using assms(1) by (simp add: sweep_def)
  have "deliver (Some (processor_handler hash now out f)) (m' # post') s'
             = deliver (Some (processor_handler hash now out f)) post' s'"
    using assms(7) by (simp add: processor_handler_transform_fault)
  then show ?thesis using sw by (simp add: start_consuming_Suc)
qed

text \<open>
  The instance: a log with the records \<^verbatim>\<open>a\<close>, \<^verbatim>\<open>bad\<close>, \<^verbatim>\<open>c\<close> and a handler that raises on
  \<^verbatim>\<open>bad\<close>; a processor whose transformation raises \<^verbatim>\<open>TypeError\<close> on a payload with a
  string under \<^verbatim>\<open>value\<close>.
\<close>

theorem handler_fault_ends_sweep_witness:
  "sweep (topics_in_order [''t''])
      \<lparr>consumer_id = 1, group_id = ''g'', subscribed_topics = {''t''}, running = False,
       message_handler = Some recording_handler\<rparr>
      (\<lparr>topics = [''t'' \<mapsto> \<lparr>partitions = 1, messages =
          [[\<lparr>topic = ''t'', key = ''a'', msg_value = 1::nat, timestamp = 0, partition_idx = 0\<rparr>,
            \<lparr>topic = ''t'', key = ''bad'', msg_value = 2, timestamp = 1, partition_idx = 0\<rparr>,
            \<lparr>topic = ''t'', key = ''c'', msg_value = 3, timestamp = 2, partition_idx = 0\<rparr>]]\<rparr>],
        consumers = [''t'' \<mapsto> [1]], lock = False\<rparr>, [])
    = Some (\<lparr>topics = [''t'' \<mapsto> \<lparr>partitions = 1, messages = [[]]\<rparr>],
             consumers = [''t'' \<mapsto> [1]], lock = False\<rparr>, [''a''])
   \<and> deliver (Some (processor_handler (\<lambda>k. int (length k)) 5 ''out'' (aggregate_events ''now'')))
        [\<lparr>topic = ''t'', key = ''k'', msg_value = [''value'' \<mapsto> Str ''high''], timestamp = 0,
          partition_idx = 0\<rparr>]
        (new_broker, ())
      = Some (Returned, new_broker, ())"
proof -
  let ?iter = "topics_in_order [''t'']"
  let ?c = "\<lparr>consumer_id = 1, group_id = ''g'', subscribed_topics = {''t''}, running = False,
       message_handler = Some (recording_handler :: (nat, string list) handler)\<rparr>"
  let ?a = "\<lparr>topic = ''t'', key = ''a'', msg_value = 1::nat, timestamp = 0, partition_idx = 0\<rparr>"
  let ?bad = "\<lparr>topic = ''t'', key = ''bad'', msg_value = 2::nat, timestamp = 1, partition_idx = 0\<rparr>"
  let ?cc = "\<lparr>topic = ''t'', key = ''c'', msg_value = 3::nat, timestamp = 2, partition_idx = 0\<rparr>"
  let ?b = "\<lparr>topics = [''t'' \<mapsto> \<lparr>partitions = 1, messages = [[?a, ?bad, ?cc]]\<rparr>],
        consumers = [''t'' \<mapsto> [1::nat]], lock = False\<rparr>"
  let ?b1 = "\<lparr>topics = [''t'' \<mapsto> \<lparr>partitions = 1, messages = [[]]\<rparr>],
        consumers = [''t'' \<mapsto> [1::nat]], lock = False\<rparr> :: nat StreamBroker"
  let ?m' = "\<lparr>topic = ''t'', key = ''k'', msg_value = [''value'' \<mapsto> Str ''high''], timestamp = 0,
          partition_idx = 0\<rparr>"
  have 1: "?iter (subscribed_topics ?c) = [] @ ''t'' # []" by (simp add: topics_in_order_def)
  have 2: "poll_topics ?c [] (?b, []) = Some (Returned, (?b, []))" by simp
  have 3: "consume ''t'' (group_id ?c) 10 (fst (?b, [] :: string list)) = Some ([?a] @ ?bad # [?cc], ?b1)"
    by (simp add: consume_def with_lock_def consume_body_def slice_to_def)
  have 4: "message_handler ?c = Some recording_handler" by simp
  have 5: "deliver (Some recording_handler) [?a] (?b1, snd (?b, [] :: string list))
             = Some (Returned, (?b1, [''a'']))"
    by (simp add: recording_handler_def)
  have 6: "recording_handler ?bad (?b1, [''a'']) = Some (Raised, (?b1, [''a'']))"
    by (simp add: recording_handler_def)
  have 7: "aggregate_events ''now'' (msg_value ?m') = Inl TypeError"
    by (simp add: aggregate_events_def)
  show ?thesis
    using handler_fault_ends_sweep
            [where iter = ?iter and c = ?c and h = recording_handler and t = "''t''"
               and f = "aggregate_events ''now''" and m' = ?m' and e = TypeError
               and s = "(?b, [])" and sp = "(?b, [])" and bc = ?b1
               and sd = "(?b1, [''a''])" and sf = "(?b1, [''a''])"
               and tpre = "[]" and tpost = "[]" and pre = "[?a]" and post = "[?cc]" and m = ?bad
               and n = 0 and hash = "\<lambda>k. int (length k)" and now = 5 and out = "''out''"
               and post' = "[]" and s' = "(new_broker, ())", OF 1 2 3 4 5 6 7]
    by simp
qed

text \<open>
  C5 as stated fails: \<^verbatim>\<open>consume\<close> returns the three records and empties the log, the
  handler raises on the second, and after two iterations of the loop the handler has
  seen the first record only; the third was returned by the sweep and never delivered.
\<close>

theorem handler_fault_drops_records_counterexample:
  "consume ''t'' ''g'' 10
      \<lparr>topics = [''t'' \<mapsto> \<lparr>partitions = 1, messages =
          [[\<lparr>topic = ''t'', key = ''a'', msg_value = 1::nat, timestamp = 0, partition_idx = 0\<rparr>,
            \<lparr>topic = ''t'', key = ''bad'', msg_value = 2, timestamp = 1, partition_idx = 0\<rparr>,
            \<lparr>topic = ''t'', key = ''c'', msg_value = 3, timestamp = 2, partition_idx = 0\<rparr>]]\<rparr>],
        consumers = [''t'' \<mapsto> [1]], lock = False\<rparr>
    = Some ([\<lparr>topic = ''t'', key = ''a'', msg_value = 1::nat, timestamp = 0, partition_idx = 0\<rparr>,
             \<lparr>topic = ''t'', key = ''bad'', msg_value = 2, timestamp = 1, partition_idx = 0\<rparr>,
             \<lparr>topic = ''t'', key = ''c'', msg_value = 3, timestamp = 2, partition_idx = 0\<rparr>],
            \<lparr>topics = [''t'' \<mapsto> \<lparr>partitions = 1, messages = [[]]\<rparr>],
             consumers = [''t'' \<mapsto> [1]], lock = False\<rparr>)
   \<and> start_consuming 2 (topics_in_order [''t''])
      \<lparr>consumer_id = 1, group_id = ''g'', subscribed_topics = {''t''}, running = False,
       message_handler = Some recording_handler\<rparr>
      (\<lparr>topics = [''t'' \<mapsto> \<lparr>partitions = 1, messages =
          [[\<lparr>topic = ''t'', key = ''a'', msg_value = 1::nat, timestamp = 0, partition_idx = 0\<rparr>,
            \<lparr>topic = ''t'', key = ''bad'', msg_value = 2, timestamp = 1, partition_idx = 0\<rparr>,
            \<lparr>topic = ''t'', key = ''c'', msg_value = 3, timestamp = 2, partition_idx = 0\<rparr>]]\<rparr>],
        consumers = [''t'' \<mapsto> [1]], lock = False\<rparr>, [])
    = Some (\<lparr>topics = [''t'' \<mapsto> \<lparr>partitions = 1, messages = [[]]\<rparr>],
             consumers = [''t'' \<mapsto> [1]], lock = False\<rparr>, [''a''])"
  by (simp add: start_consuming_def sweep_def topics_in_order_def consume_def with_lock_def
                consume_body_def slice_to_def recording_handler_def eval_nat_numeral)

section \<open>The processor pipeline\<close>

lemma send_ok:
  assumes "\<not> lock b" and "topics b t = Some td" and "wf_topic t td" and "1 \<le> partitions td"
  shows "send hash now t k v b =
     Some (True,
           b\<lparr>topics := (topics b)(t \<mapsto>
                td\<lparr>messages := (messages td)[nat (hash k mod partitions td) :=
                       messages td ! nat (hash k mod partitions td)
                         @ [\<lparr>topic = t, key = k, msg_value = v, timestamp = now,
                             partition_idx = hash k mod partitions td\<rparr>]]\<rparr>)\<rparr>)"
  using publish_ok [of b "\<lparr>topic = t, key = k, msg_value = v, timestamp = now, partition_idx = 0\<rparr>"
                       td hash] assms
  by (simp add: send_def)

text \<open>
  When the output topic does not exist, the republishing of a transformed payload does
  not return: \<^verbatim>\<open>producer.send\<close> calls \<^verbatim>\<open>publish\<close> for an unknown topic, which waits for
  the lock that it holds (the defect shown for C4). The statement for C9 below is about
  processors whose output topic exists and says nothing about this case.
\<close>

lemma processor_handler_unknown_output:
  assumes "topics b out = None" and "f (msg_value m) = Inr d"
  shows "processor_handler hash now out f m (b, x) = None"
  using assms by (simp add: processor_handler_def send_def publish_unknown_topic_blocks)

lemma deliver_processor:
  assumes "\<not> lock b" and "topics b out = Some td" and "wf_topic out td"
    and "1 \<le> partitions td"
  shows "\<exists>b' td'. deliver (Some (processor_handler hash now out f)) msgs (b, x)
                     = Some (Returned, b', x)
           \<and> \<not> lock b' \<and> topics b' out = Some td' \<and> wf_topic out td'
           \<and> partitions td' = partitions td
           \<and> (\<forall>t. t \<noteq> out \<longrightarrow> topics b' t = topics b t)
           \<and> (\<forall>i < length (messages td). messages td' ! i =
                 messages td ! i @
                   map (\<lambda>m. \<lparr>topic = out, key = key m, msg_value = projr (f (msg_value m)),
                              timestamp = now, partition_idx = int i\<rparr>)
                       (filter (\<lambda>m. \<not> isl (f (msg_value m))
                                    \<and> hash (key m) mod partitions td = int i) msgs))"
  using assms
proof (induction msgs arbitrary: b td)
  case Nil
  then show ?case by simp
next
  case (Cons m msgs)
  show ?case
  proof (cases "f (msg_value m)")
    case (Inl e)
    have h: "processor_handler hash now out f m (b, x) = Some (Returned, b, x)"
      using Inl by (simp add: processor_handler_def)
    from Cons.IH [OF Cons.prems]
    obtain b' td' where r: "deliver (Some (processor_handler hash now out f)) msgs (b, x)
                     = Some (Returned, b', x)"
      and l1: "\<not> lock b'" and t1: "topics b' out = Some td'" and wf1: "wf_topic out td'"
      and p1: "partitions td' = partitions td"
      and oth: "\<forall>t. t \<noteq> out \<longrightarrow> topics b' t = topics b t"
      and logs: "\<forall>i < length (messages td). messages td' ! i =
                 messages td ! i @
                   map (\<lambda>m. \<lparr>topic = out, key = key m, msg_value = projr (f (msg_value m)),
                              timestamp = now, partition_idx = int i\<rparr>)
                       (filter (\<lambda>m. \<not> isl (f (msg_value m))
                                    \<and> hash (key m) mod partitions td = int i) msgs)"
      by auto
    have step: "\<forall>i < length (messages td). messages td' ! i =
                 messages td ! i @
                   map (\<lambda>m. \<lparr>topic = out, key = key m, msg_value = projr (f (msg_value m)),
                              timestamp = now, partition_idx = int i\<rparr>)
                       (filter (\<lambda>m. \<not> isl (f (msg_value m))
                                    \<and> hash (key m) mod partitions td = int i) (m # msgs))"
      using logs Inl by simp
    have "deliver (Some (processor_handler hash now out f)) (m # msgs) (b, x)
            = Some (Returned, b', x)"
      using h r by simp
    then show ?thesis using l1 t1 wf1 p1 oth step by blast
  next
    case (Inr d)
    let ?p = "hash (key m) mod partitions td"
    let ?m = "\<lparr>topic = out, key = key m, msg_value = d, timestamp = now, partition_idx = ?p\<rparr>"
    let ?td = "td\<lparr>messages := (messages td)[nat ?p := messages td ! nat ?p @ [?m]]\<rparr>"
    let ?b = "b\<lparr>topics := (topics b)(out \<mapsto> ?td)\<rparr>"
    have len: "length (messages td) = nat (partitions td)"
      using Cons.prems(3) by (simp add: wf_topic_def)
    have ge: "0 \<le> ?p" and lt: "?p < partitions td" using Cons.prems(4) by simp_all
    have i: "nat ?p < length (messages td)" using ge lt len by linarith
    have h: "processor_handler hash now out f m (b, x) = Some (Returned, ?b, x)"
      using Inr send_ok [OF Cons.prems(1,2,3,4), of hash now "key m" d]
      by (simp add: processor_handler_def)
    have l': "\<not> lock ?b" using Cons.prems(1) by simp
    have t': "topics ?b out = Some ?td" by simp
    have wf': "wf_topic out ?td"
      using Cons.prems(3) i ge by (intro wf_topic_append) simp_all
    have pos': "1 \<le> partitions ?td" using Cons.prems(4) by simp
    from Cons.IH [OF l' t' wf' pos']
    obtain b' td' where r: "deliver (Some (processor_handler hash now out f)) msgs (?b, x)
                       = Some (Returned, b', x)"
      and l1: "\<not> lock b'" and t1: "topics b' out = Some td'" and wf1: "wf_topic out td'"
      and p1: "partitions td' = partitions td"
      and oth: "\<forall>t. t \<noteq> out \<longrightarrow> topics b' t = topics ?b t"
      and logs: "\<forall>i < length (messages td). messages td' ! i =
                   messages ?td ! i @
                     map (\<lambda>m. \<lparr>topic = out, key = key m, msg_value = projr (f (msg_value m)),
                                timestamp = now, partition_idx = int i\<rparr>)
                         (filter (\<lambda>m. \<not> isl (f (msg_value m))
                                      \<and> hash (key m) mod partitions td = int i) msgs)"
      by auto
    have step: "messages td' ! j =
                   messages td ! j @
                     map (\<lambda>m. \<lparr>topic = out, key = key m, msg_value = projr (f (msg_value m)),
                                timestamp = now, partition_idx = int j\<rparr>)
                         (filter (\<lambda>m. \<not> isl (f (msg_value m))
                                      \<and> hash (key m) mod partitions td = int j) (m # msgs))"
      if j: "j < length (messages td)" for j
    proof (cases "j = nat ?p")
      case True
      then have "int j = ?p" using ge by simp
      then show ?thesis using logs j True Inr by simp
    next
      case False
      then have "int j \<noteq> ?p" using ge by auto
      then show ?thesis using logs j False by simp
    qed
    have oth': "\<forall>t. t \<noteq> out \<longrightarrow> topics b' t = topics b t" using oth by simp
    have "deliver (Some (processor_handler hash now out f)) (m # msgs) (b, x)
            = Some (Returned, b', x)"
      using h r by simp
    then show ?thesis using l1 t1 wf1 p1 oth' step by blast
  qed
qed

text \<open>
  C9 (as amended): take a processor whose output topic exists with at least one
  partition, and any batch of records consumed from its input topic. The handler of
  the processor returns for every record of the batch. For a record on whose payload
  the transformation returns a result, it republishes to the output topic a record
  that carries the output topic, the key of the consumed record and the transformed
  payload, in the partition to which the key is routed. A record on whose payload the
  transformation raises is skipped: nothing is republished for it, and the records
  after it are processed all the same. So for every partition \<open>i\<close> of the output topic
  the log of \<open>i\<close> grows by exactly the transformed records of the batch that are
  routed to \<open>i\<close>, in the order of the batch; the other topics stay as they are.
\<close>

theorem processor_republishes_transformed:
  assumes "\<not> lock b" and "topics b out = Some td" and "wf_topic out td"
    and "1 \<le> partitions td"
  shows "\<exists>b' td'. deliver (Some (processor_handler hash now out f)) msgs (b, x)
                     = Some (Returned, b', x)
           \<and> topics b' out = Some td' \<and> partitions td' = partitions td
           \<and> (\<forall>t. t \<noteq> out \<longrightarrow> topics b' t = topics b t)
           \<and> (\<forall>i < length (messages td). messages td' ! i =
                 messages td ! i @
                   map (\<lambda>m. \<lparr>topic = out, key = key m, msg_value = projr (f (msg_value m)),
                              timestamp = now, partition_idx = int i\<rparr>)
                       (filter (\<lambda>m. \<not> isl (f (msg_value m))
                                    \<and> hash (key m) mod partitions td = int i) msgs))"
  using deliver_processor [OF assms, of hash now f msgs x] by blast

text \<open>
  The instance: the topics \<^verbatim>\<open>in\<close> and \<^verbatim>\<open>out\<close>, a processor with the transformation of
  \<^verbatim>\<open>main\<close>, the payloads \<^verbatim>\<open>{"value": "high"}\<close>, on which the transformation raises, and
  \<^verbatim>\<open>{"value": 10}\<close> (the example of the specification) sent under the keys \<^verbatim>\<open>k1\<close> and
  \<^verbatim>\<open>k\<close>, and one iteration of the poll loop of the processor: both records are consumed,
  and the output topic holds one record, with the key \<^verbatim>\<open>k\<close> and the event score 15.
\<close>

theorem processor_republishes_transformed_witness:
  "(case send (\<lambda>k. int (length k)) 0 ''in'' ''k1'' [''value'' \<mapsto> Str ''high'']
           (snd (add_processor (\<lambda>k. int (length k)) 5 7 ''p'' ''in'' ''out''
                   (aggregate_events ''now'')
                   (create_topic_body ''out'' 2 (create_topic_body ''in'' 1 new_broker)))) of
      None \<Rightarrow> False
    | Some (r1, b1) \<Rightarrow>
        r1 \<and>
        (case send (\<lambda>k. int (length k)) 1 ''in'' ''k'' [''value'' \<mapsto> Num 10] b1 of
           None \<Rightarrow> False
         | Some (r2, b2) \<Rightarrow>
             r2 \<and>
             (case start_consuming 1 (topics_in_order [''in''])
                     (fst (add_processor (\<lambda>k. int (length k)) 5 7 ''p'' ''in'' ''out''
                             (aggregate_events ''now'')
                             (create_topic_body ''out'' 2
                                (create_topic_body ''in'' 1 new_broker))))
                     (b2, ()) of
                None \<Rightarrow> False
              | Some (b3, u) \<Rightarrow>
                  map_option (map (map (\<lambda>m. (key m, msg_value m ''value'',
                                                  msg_value m ''event_score''))) \<circ> messages)
                             (topics b3 ''out'')
                    = Some [[], [(''k'', Some (Num 10), Some (Num 15))]]
                  \<and> map_option messages (topics b3 ''in'') = Some [[]])))"
proof -
  let ?h = "\<lambda>k::string. int (length k)"
  let ?f = "aggregate_events ''now''"
  let ?bad = "\<lparr>topic = ''in'', key = ''k1'', msg_value = [''value'' \<mapsto> Str ''high''],
               timestamp = 0, partition_idx = 0\<rparr>"
  let ?good = "\<lparr>topic = ''in'', key = ''k'', msg_value = [''value'' \<mapsto> Num 10], timestamp = 1,
               partition_idx = 0\<rparr>"
  let ?tdo = "\<lparr>partitions = 2, messages = [[], []]\<rparr> :: (string \<rightharpoonup> pyval) topic_data"
  let ?bc = "\<lparr>topics = [''in'' \<mapsto> \<lparr>partitions = 1, messages = [[]]\<rparr>, ''out'' \<mapsto> ?tdo],
              consumers = [''in'' \<mapsto> [7], ''out'' \<mapsto> []], lock = False\<rparr>"
  have 1: "\<not> lock ?bc" by simp
  have 2: "topics ?bc ''out'' = Some ?tdo" by simp
  have 3: "wf_topic ''out'' ?tdo" by (simp add: wf_topic_def All_less_Suc numeral_2_eq_2)
  have 4: "1 \<le> partitions ?tdo" by simp
  note th = processor_republishes_transformed [OF 1 2 3 4, of ?h 5 ?f "[?bad, ?good]" "()"]
  show ?thesis
    using th
    by (simp add: add_processor_def set_message_handler_def subscribe_def add_consumer_def
          create_topic_body_def new_broker_def send_def publish_def with_lock_def publish_body_def
          py_mod_def list_index_def Let_def start_consuming_def sweep_def topics_in_order_def
          consume_def consume_body_def slice_to_def processor_handler_def aggregate_events_def
          eval_nat_numeral)
qed

text \<open>
  C9 as stated fails for a record on whose payload the transformation raises: with the
  transformation of \<^verbatim>\<open>main\<close> and the payload \<^verbatim>\<open>{"value": "high"}\<close> the record is consumed
  from the input topic and nothing is republished to the output topic.
\<close>

theorem processor_transform_fault_counterexample:
  "start_consuming 1 (topics_in_order [''in''])
     \<lparr>consumer_id = 7, group_id = ''processor_p'', subscribed_topics = {''in''}, running = False,
      message_handler =
        Some (processor_handler (int \<circ> length) 5 ''out'' (aggregate_events ''now''))\<rparr>
     (\<lparr>topics =
         [''out'' \<mapsto> \<lparr>partitions = 2, messages = [[], []]\<rparr>,
          ''in'' \<mapsto> \<lparr>partitions = 1, messages =
            [[\<lparr>topic = ''in'', key = ''k'', msg_value = [''value'' \<mapsto> Str ''high''],
               timestamp = 0, partition_idx = 0\<rparr>]]\<rparr>],
       consumers = [''in'' \<mapsto> [7], ''out'' \<mapsto> []], lock = False\<rparr>, ())
   = Some (\<lparr>topics =
         [''out'' \<mapsto> \<lparr>partitions = 2, messages = [[], []]\<rparr>,
          ''in'' \<mapsto> \<lparr>partitions = 1, messages = [[]]\<rparr>],
       consumers = [''in'' \<mapsto> [7], ''out'' \<mapsto> []], lock = False\<rparr>, ())"
  by (simp add: start_consuming_def sweep_def topics_in_order_def consume_def with_lock_def
        consume_body_def slice_to_def processor_handler_def aggregate_events_def
        eval_nat_numeral)

section \<open>The invariant of the topic store is kept\<close>

text \<open>
  A new broker satisfies \<open>wf_broker\<close>, and every operation of the broker that returns
  keeps it: the assumption \<open>wf_topic\<close> of the theorems above holds in every state that
  a sequential caller can reach.
\<close>

lemma wf_broker_new: "wf_broker new_broker"
  by (simp add: wf_broker_def new_broker_def)

lemma wf_broker_create_topic:
  assumes "wf_broker b" and "create_topic t n b = Some b'"
  shows "wf_broker b'"
proof -
  have l: "\<not> lock b" using assms(1) by (simp add: wf_broker_def)
  have b': "b' = create_topic_body t n b" using assms(2) l by (simp add: create_topic_free)
  show ?thesis
    using assms(1) unfolding b'
    by (auto simp: wf_broker_def create_topic_body_def wf_topic_created split: if_splits)
qed

lemma wf_broker_publish:
  assumes "wf_broker b" and "publish h m b = Some (r, m', b')"
  shows "wf_broker b'"
proof -
  have l: "\<not> lock b" using assms(1) by (simp add: wf_broker_def)
  obtain td where t: "topics b (topic m) = Some td"
    using assms(2) publish_Some_known by blast
  have wf: "wf_topic (topic m) td" using assms(1) t by (simp add: wf_broker_def)
  show ?thesis
  proof (cases "1 \<le> partitions td")
    case True
    let ?p = "h (key m) mod partitions td"
    have len: "length (messages td) = nat (partitions td)" using wf by (simp add: wf_topic_def)
    have ge: "0 \<le> ?p" and lt: "?p < partitions td" using True by simp_all
    have i: "nat ?p < length (messages td)" using ge lt len by linarith
    have wf': "wf_topic (topic m)
        (td\<lparr>messages := (messages td)[nat ?p := messages td ! nat ?p @ [m\<lparr>partition_idx := ?p\<rparr>]]\<rparr>)"
      using wf i ge by (intro wf_topic_append) simp_all
    have "b' = b\<lparr>topics := (topics b)(topic m \<mapsto>
        td\<lparr>messages := (messages td)[nat ?p := messages td ! nat ?p @ [m\<lparr>partition_idx := ?p\<rparr>]]\<rparr>)\<rparr>"
      using assms(2) unfolding publish_ok [OF l t wf True] by auto
    then show ?thesis using assms(1) wf' by (simp add: wf_broker_def)
  next
    case False
    then have "partitions td \<le> 0" by simp
    then obtain m'' where "publish h m b = Some (False, m'', b)"
      using publish_fail_nonpos [OF l t wf] by blast
    then show ?thesis using assms by simp
  qed
qed

lemma wf_broker_consume:
  assumes "wf_broker b" and "consume t g n b = Some (msgs, b')"
  shows "wf_broker b'"
proof -
  have l: "\<not> lock b" using assms(1) by (simp add: wf_broker_def)
  show ?thesis
  proof (cases "topics b t")
    case None
    then show ?thesis using assms l by (simp add: consume_unknown)
  next
    case (Some td)
    have wf: "wf_topic t td" using assms(1) Some by (simp add: wf_broker_def)
    have "b' = b\<lparr>topics := (topics b)(t \<mapsto>
                td\<lparr>messages := map (\<lambda>pm. drop (length (slice_to pm n)) pm) (messages td)\<rparr>)\<rparr>"
      using assms(2) unfolding consume_free [OF l Some] by simp
    then show ?thesis
      using assms(1) wf_topic_consumed [OF wf, of n] by (simp add: wf_broker_def)
  qed
qed

lemma wf_broker_add_consumer: "wf_broker b \<Longrightarrow> wf_broker (add_consumer t c b)"
  by (simp add: wf_broker_def add_consumer_eq)

end
